theory Spec2Isabelle
  imports Main "HOL-Library.Word" "HOL-Library.Multiset"
begin

section \<open>JavaScript values used by WordFlux\<close>

subsection \<open>Strings\<close>

text \<open>
  A JavaScript string is a sequence of UTF-16 code units. ASCII literals of the source
  are written with \<open>ascii\<close>.
\<close>

type_synonym jschar = "16 word"
type_synonym jsstring = "jschar list"

definition ascii :: "string \<Rightarrow> jsstring" where
  "ascii s = map of_char s"

subsection \<open>Map\<close>

text \<open>
  A \<open>Map\<close> keeps its entries in insertion order and holds every key once: it is an
  association list whose keys are distinct (\<open>Map_wf\<close>). \<open>Map.set\<close> on a key that is
  present replaces the value where the entry stands; on a new key it appends the entry.
  Counts are natural numbers: the numbers of the source are doubles, which add exactly
  below \<open>2 ^ 53\<close>.
\<close>

type_synonym ('k, 'v) js_map = "('k \<times> 'v) list"

definition Map_wf :: "('k, 'v) js_map \<Rightarrow> bool" where
  "Map_wf m = distinct (map fst m)"

definition Map_get :: "('k, 'v) js_map \<Rightarrow> 'k \<Rightarrow> 'v option" where
  "Map_get m k = map_of m k"

fun Map_set :: "'k \<Rightarrow> 'v \<Rightarrow> ('k, 'v) js_map \<Rightarrow> ('k, 'v) js_map" where
  "Map_set k v [] = [(k, v)]"
| "Map_set k v (e # m) = (if fst e = k then (k, v) # m else e # Map_set k v m)"

definition Map_size :: "('k, 'v) js_map \<Rightarrow> nat" where
  "Map_size m = length m"

definition Map_keys :: "('k, 'v) js_map \<Rightarrow> 'k set" where
  "Map_keys m = fst ` set m"

text \<open>\<open>x || 0\<close> for \<open>x\<close> a count or \<open>undefined\<close>: \<open>undefined\<close> and \<open>0\<close> are falsy.\<close>

definition or_zero :: "nat option \<Rightarrow> nat" where
  "or_zero x = (case x of None \<Rightarrow> 0 | Some c \<Rightarrow> if c = 0 then 0 else c)"

text \<open>The sum of all counts of a map.\<close>

definition sum_counts :: "('k, nat) js_map \<Rightarrow> nat" where
  "sum_counts m = sum_list (map snd m)"

section \<open>wordCounter: mergeMaps\<close>

text \<open>
  \<^verbatim>\<open>merged.set(word, (merged.get(word) || 0) + count)\<close> is the body of the inner loop;
  \<open>merge_into\<close> is the inner loop over one map, \<open>mergeMaps\<close> the outer loop from the
  empty map.
\<close>

definition merge_entry :: "('k, nat) js_map \<Rightarrow> 'k \<times> nat \<Rightarrow> ('k, nat) js_map" where
  "merge_entry merged e =
     (case e of (word, cnt) \<Rightarrow> Map_set word (or_zero (Map_get merged word) + cnt) merged)"

definition merge_into :: "('k, nat) js_map \<Rightarrow> ('k, nat) js_map \<Rightarrow> ('k, nat) js_map" where
  "merge_into merged m = foldl merge_entry merged m"

definition mergeMaps :: "('k, nat) js_map list \<Rightarrow> ('k, nat) js_map" where
  "mergeMaps maps = foldl merge_into [] maps"

text \<open>A map's count for a token, absence counted as 0.\<close>

definition count_of :: "('k, nat) js_map \<Rightarrow> 'k \<Rightarrow> nat" where
  "count_of m w = (case Map_get m w of None \<Rightarrow> 0 | Some c \<Rightarrow> c)"

text \<open>The entries of a list of pairs that contribute to one token.\<close>

definition contrib :: "('k \<times> nat) list \<Rightarrow> 'k \<Rightarrow> nat" where
  "contrib m w = sum_list (map snd (filter (\<lambda>e. fst e = w) m))"

section \<open>wordCounter: normalizeLine\<close>

text \<open>
  \<^verbatim>\<open>line.toLowerCase().replace(/[^\w\s...]/gi, ' ').split(/\s+/)
      .filter(word => word.length > 0)\<close>

  \<open>String.prototype.toLowerCase\<close> is the case conversion of the runtime, a table over
  all of Unicode: the model takes it as the parameter \<open>lc\<close>. The regular expressions
  have no \<open>u\<close> flag, so they work on single code units. The dots of the class stand
  for the 22 accented letters that \<open>accented\<close> lists.

  \<open>\w\<close> is \<open>[A-Za-z0-9_]\<close>; \<open>\s\<close> is the white space and line terminators of
  ECMAScript. With the \<open>i\<close> flag a code unit belongs to the class when its capital
  form is the capital form of a member: for this class that adds the capitals of the
  accented letters, which stand \<open>0x20\<close> below them, and nothing else.
\<close>

definition is_word_char :: "jschar \<Rightarrow> bool" where
  "is_word_char c \<longleftrightarrow>
     (0x61 \<le> c \<and> c \<le> 0x7A) \<or> (0x41 \<le> c \<and> c \<le> 0x5A) \<or> (0x30 \<le> c \<and> c \<le> 0x39) \<or> c = 0x5F"

definition is_whitespace :: "jschar \<Rightarrow> bool" where
  "is_whitespace c \<longleftrightarrow>
     c \<in> set [0x09, 0x0A, 0x0B, 0x0C, 0x0D, 0x20, 0xA0, 0x1680,
               0x2028, 0x2029, 0x202F, 0x205F, 0x3000, 0xFEFF]
     \<or> (0x2000 \<le> c \<and> c \<le> 0x200A)"

text \<open>The accented letters of the class, in the order of the source (\<open>0xFC\<close> twice).\<close>

definition accented :: "jschar list" where
  "accented = [0xE1, 0xE9, 0xED, 0xF3, 0xFA, 0xF1, 0xFC,
               0xE0, 0xE8, 0xEC, 0xF2, 0xF9,
               0xE2, 0xEA, 0xEE, 0xF4, 0xFB,
               0xE4, 0xEB, 0xEF, 0xF6, 0xFC]"

definition in_class :: "jschar \<Rightarrow> bool" where
  "in_class c \<longleftrightarrow>
     is_word_char c \<or> is_whitespace c \<or> c \<in> set accented \<or> c + 0x20 \<in> set accented"

definition replace_punctuation :: "jsstring \<Rightarrow> jsstring" where
  "replace_punctuation s = map (\<lambda>c. if in_class c then c else 0x20) s"

text \<open>
  \<open>split(/\s+/)\<close>: the piece before the next run of white space, then the pieces of
  what follows the run; the rest of the string is the last piece, so a string that ends
  in white space, and the empty string, end in an empty piece.
\<close>

function split_whitespace :: "jsstring \<Rightarrow> jsstring list" where
  "split_whitespace s =
     (let piece = takeWhile (\<lambda>c. \<not> is_whitespace c) s;
          rest = dropWhile (\<lambda>c. \<not> is_whitespace c) s
      in if rest = [] then [piece]
         else piece # split_whitespace (dropWhile is_whitespace rest))"
  by pat_completeness auto
termination
proof (relation "measure length")
  show "wf (measure length)" by simp
next
  fix s piece rest :: jsstring
  assume rest: "rest = dropWhile (\<lambda>c. \<not> is_whitespace c) s" and ne: "rest \<noteq> []"
  from ne obtain c cs where cs: "rest = c # cs" by (cases rest) auto
  with rest have "dropWhile (\<lambda>c. \<not> is_whitespace c) s = c # cs" by simp
  then have "is_whitespace c" by (simp add: dropWhile_eq_Cons_conv)
  then have "dropWhile is_whitespace rest = dropWhile is_whitespace cs" by (simp add: cs)
  then have "length (dropWhile is_whitespace rest) \<le> length cs"
    by (simp add: length_dropWhile_le)
  also have "length cs < length rest" by (simp add: cs)
  also have "length rest \<le> length s" by (simp add: rest length_dropWhile_le)
  finally show "(dropWhile is_whitespace rest, s) \<in> measure length" by simp
qed

declare split_whitespace.simps [simp del]

definition normalizeLine :: "(jsstring \<Rightarrow> jsstring) \<Rightarrow> jsstring \<Rightarrow> jsstring list" where
  "normalizeLine lc line =
     filter (\<lambda>word. length word > 0) (split_whitespace (replace_punctuation (lc line)))"

text \<open>
  \<open>toLowerCase\<close> on strings whose code units are all below \<open>0x100\<close> (Basic Latin and
  Latin-1 Supplement): the capitals \<open>A-Z\<close> and \<open>0xC0-0xDE\<close> without the
  multiplication sign \<open>0xD7\<close> move up by \<open>0x20\<close>. It stands for the parameter
  \<open>lc\<close> where a line of such characters is evaluated; it is not the conversion of
  the runtime on other strings.
\<close>

definition lower_latin1 :: "jschar \<Rightarrow> jschar" where
  "lower_latin1 c =
     (if (0x41 \<le> c \<and> c \<le> 0x5A) \<or> (0xC0 \<le> c \<and> c \<le> 0xDE \<and> c \<noteq> 0xD7) then c + 0x20 else c)"

definition toLowerCase_latin1 :: "jsstring \<Rightarrow> jsstring" where
  "toLowerCase_latin1 s = map lower_latin1 s"

section \<open>wordCounter: countWords\<close>

text \<open>
  The file system as \<open>countWords\<close> sees it: a path is absent, names a directory, or
  names a file. \<open>File lines\<close> is read to its end and \<open>readline\<close> delivers those lines.
  \<open>Unreadable lines text code\<close> is a file whose stream fails with a system error of
  that message and that \<open>code\<close> after \<open>readline\<close> has delivered those lines: at the
  open, before any line, for \<open>EACCES\<close>, in mid-read for \<open>EIO\<close>. The calls that
  \<open>countWords\<close> makes on the file system are returned with its result, in the order of
  the source; \<open>createReadStream\<close> is the only one that opens a file.
\<close>

datatype fs_node = Directory | File "jsstring list" | Unreadable "jsstring list" jsstring string

datatype fs_call = ExistsSync jsstring | StatSync jsstring | CreateReadStream jsstring

text \<open>
  The messages of the errors: \<open>ENOENT p\<close> and \<open>EISDIR p\<close> are the two
  \<^verbatim>\<open>new Error(...)\<close> of \<open>countWords\<close> with the path in their text, \<open>SystemMessage\<close>
  is the text of a system error of the stream, \<open>Uncaught\<close> is the message of an error
  that nothing in the worker thread caught. An error that is thrown has its message and,
  when it is a system error, a \<open>code\<close>; the two errors that \<open>countWords\<close> makes
  itself have none.
\<close>

datatype error_message =
  ENOENT jsstring | EISDIR jsstring | SystemMessage jsstring | Uncaught jsstring

record js_error =
  thrown_message :: error_message
  thrown_code :: "string option"

record scan_state =
  wordMap :: "(jsstring, nat) js_map"
  totalWords :: nat
  linesProcessed :: nat

record count_result = scan_state +
  uniqueWords :: nat

definition count_word :: "scan_state \<Rightarrow> jsstring \<Rightarrow> scan_state" where
  "count_word st word =
     st\<lparr>totalWords := totalWords st + 1,
        wordMap := Map_set word (or_zero (Map_get (wordMap st) word) + 1) (wordMap st)\<rparr>"

definition count_line :: "(jsstring \<Rightarrow> jsstring) \<Rightarrow> scan_state \<Rightarrow> jsstring \<Rightarrow> scan_state" where
  "count_line lc st line =
     foldl count_word (st\<lparr>linesProcessed := linesProcessed st + 1\<rparr>) (normalizeLine lc line)"

definition scan_lines :: "(jsstring \<Rightarrow> jsstring) \<Rightarrow> jsstring list \<Rightarrow> scan_state" where
  "scan_lines lc lines =
     foldl (count_line lc) \<lparr>wordMap = [], totalWords = 0, linesProcessed = 0\<rparr> lines"

text \<open>
  The progress callback only reports the counters; it is left out. The error of a stream
  that fails ends \<^verbatim>\<open>for await (const line of rl)\<close> and leaves \<open>countWords\<close> as it is,
  and what was counted until then is lost with it.
\<close>

definition countWords ::
  "(jsstring \<Rightarrow> jsstring) \<Rightarrow> (jsstring \<Rightarrow> fs_node option) \<Rightarrow> jsstring
     \<Rightarrow> fs_call list \<times> (js_error + count_result)" where
  "countWords lc files filePath =
     (case files filePath of
        None \<Rightarrow>
          ([ExistsSync filePath],
           Inl \<lparr>thrown_message = ENOENT filePath, thrown_code = None\<rparr>)
      | Some Directory \<Rightarrow>
          ([ExistsSync filePath, StatSync filePath],
           Inl \<lparr>thrown_message = EISDIR filePath, thrown_code = None\<rparr>)
      | Some (Unreadable lines text code) \<Rightarrow>
          ([ExistsSync filePath, StatSync filePath, CreateReadStream filePath],
           Inl \<lparr>thrown_message = SystemMessage text, thrown_code = Some code\<rparr>)
      | Some (File lines) \<Rightarrow>
          ([ExistsSync filePath, StatSync filePath, CreateReadStream filePath],
           Inr (let st = scan_lines lc lines
                in \<lparr>wordMap = wordMap st, totalWords = totalWords st,
                    linesProcessed = linesProcessed st,
                    uniqueWords = Map_size (wordMap st)\<rparr>)))"

text \<open>The paths that a sequence of calls opens.\<close>

definition opened :: "fs_call list \<Rightarrow> jsstring list" where
  "opened calls = concat (map (\<lambda>c. case c of CreateReadStream p \<Rightarrow> [p] | _ \<Rightarrow> []) calls)"

section \<open>wordCounter: getTopWords\<close>

text \<open>
  \<open>Array.prototype.slice\<close>: a negative index counts from the end, and both indices are
  brought into the array.
\<close>

definition relative_index :: "nat \<Rightarrow> int \<Rightarrow> nat" where
  "relative_index len k = (if k < 0 then nat (max (int len + k) 0) else min (nat k) len)"

definition Array_slice :: "'a list \<Rightarrow> int \<Rightarrow> int \<Rightarrow> 'a list" where
  "Array_slice xs start end =
     (let k = relative_index (length xs) start; final = relative_index (length xs) end
      in take (final - k) (drop k xs))"

text \<open>
  \<open>Array.prototype.sort\<close> with a comparison function is stable (ECMAScript 2019, and
  every Node.js that the package admits): elements that compare equal keep their order.
  Insertion from the right, each element before the first one it does not have to
  follow, computes that order.
\<close>

fun insert_sorted :: "('a \<Rightarrow> 'a \<Rightarrow> int) \<Rightarrow> 'a \<Rightarrow> 'a list \<Rightarrow> 'a list" where
  "insert_sorted cmp x [] = [x]"
| "insert_sorted cmp x (y # ys) =
     (if cmp x y \<le> 0 then x # y # ys else y # insert_sorted cmp x ys)"

definition Array_sort :: "('a \<Rightarrow> 'a \<Rightarrow> int) \<Rightarrow> 'a list \<Rightarrow> 'a list" where
  "Array_sort cmp xs = foldr (insert_sorted cmp) xs []"

text \<open>\<^verbatim>\<open>(a, b) => b[1] - a[1]\<close>\<close>

definition by_count_desc :: "'k \<times> nat \<Rightarrow> 'k \<times> nat \<Rightarrow> int" where
  "by_count_desc a b = int (snd b) - int (snd a)"

record top_word =
  word :: jsstring
  count' :: nat

text \<open>
  \<^verbatim>\<open>([word, count]) => ({ word, count })\<close>. The parameter \<open>n\<close> of \<open>getTopWords\<close>
  is 10 when the caller leaves it out; the model takes it as given.
\<close>

definition top_entry :: "jsstring \<times> nat \<Rightarrow> top_word" where
  "top_entry e = (case e of (w, c) \<Rightarrow> \<lparr>word = w, count' = c\<rparr>)"

definition getTopWords :: "(jsstring, nat) js_map \<Rightarrow> int \<Rightarrow> top_word list" where
  "getTopWords wmap n = map top_entry (Array_slice (Array_sort by_count_desc wmap) 0 n)"

section \<open>wordCounter: mapToObject and objectToMap\<close>

text \<open>
  A plain object with counts as values is the list of its own properties in the order
  in which \<open>Object.entries\<close> and \<open>for ... in\<close> go through them: the keys that are array
  indices (canonical decimal numbers below \<open>2 ^ 32 - 1\<close>) in ascending numeric order,
  then the other keys in the order of their creation.

  \<^verbatim>\<open>obj[key] = value\<close> on an object made by \<^verbatim>\<open>{}\<close>: the key \<open>__proto__\<close> is the
  accessor of \<open>Object.prototype\<close>, whose setter ignores a value that is neither an object
  nor \<open>null\<close> and creates no property; any other key is an own property afterwards.
\<close>

type_synonym js_object = "(jsstring \<times> nat) list"

definition is_digit :: "jschar \<Rightarrow> bool" where
  "is_digit c \<longleftrightarrow> 0x30 \<le> c \<and> c \<le> 0x39"

definition index_value :: "jsstring \<Rightarrow> nat" where
  "index_value s = foldl (\<lambda>n c. 10 * n + unat (c - 0x30)) 0 s"

definition is_array_index :: "jsstring \<Rightarrow> bool" where
  "is_array_index s \<longleftrightarrow>
     s \<noteq> [] \<and> list_all is_digit s \<and> (hd s \<noteq> 0x30 \<or> length s = 1) \<and> index_value s < 4294967295"

definition precedes :: "jsstring \<Rightarrow> jsstring \<Rightarrow> bool" where
  "precedes k k' \<longleftrightarrow>
     is_array_index k \<and> (\<not> is_array_index k' \<or> index_value k < index_value k')"

fun create_property :: "jsstring \<Rightarrow> nat \<Rightarrow> js_object \<Rightarrow> js_object" where
  "create_property k v [] = [(k, v)]"
| "create_property k v (p # ps) =
     (if precedes k (fst p) then (k, v) # p # ps else p # create_property k v ps)"

definition assign_property :: "js_object \<Rightarrow> jsstring \<times> nat \<Rightarrow> js_object" where
  "assign_property obj e =
     (case e of (key, v) \<Rightarrow>
        if key = ascii ''__proto__'' then obj
        else if map_of obj key \<noteq> None then Map_set key v obj
        else create_property key v obj)"

definition mapToObject :: "(jsstring, nat) js_map \<Rightarrow> js_object" where
  "mapToObject wmap = foldl assign_property [] wmap"

definition objectToMap :: "js_object \<Rightarrow> (jsstring, nat) js_map" where
  "objectToMap obj = foldl (\<lambda>m e. Map_set (fst e) (snd e) m) [] obj"

text \<open>A map without its entry for the token \<open>__proto__\<close>.\<close>

definition without_proto :: "(jsstring, nat) js_map \<Rightarrow> (jsstring, nat) js_map" where
  "without_proto m = filter (\<lambda>e. fst e \<noteq> ascii ''__proto__'') m"

section \<open>worker and parallelProcessor\<close>

text \<open>
  The host: the case conversion of the runtime, the file system, the number of CPUs
  that \<open>os.cpus()\<close> lists, and for each file whether its worker thread dies of an
  uncaught error before it has posted its result (with the message of that error).
  Workers share nothing and only read the file system, so the message that a worker
  ends with is a function of the host and its file.
\<close>

record host =
  toLowerCase :: "jsstring \<Rightarrow> jsstring"
  fs :: "jsstring \<Rightarrow> fs_node option"
  cpus :: nat
  worker_fault :: "jsstring \<Rightarrow> jsstring option"

record error_info =
  message :: error_message
  code :: string

record file_data =
  data_wordMap :: js_object
  data_totalWords :: nat
  data_uniqueWords :: nat
  data_linesProcessed :: nat

datatype outcome = Succeeded file_data | Failed error_info

text \<open>
  The \<open>complete\<close> message: \<open>success\<close> with \<open>data\<close>, or not with \<open>error\<close>. The
  durations are wall-clock times and the texts for the console are left out.
\<close>

record complete_message =
  msg_workerId :: nat
  msg_filePath :: jsstring
  msg_outcome :: outcome

text \<open>
  \<^verbatim>\<open>error.code || 'UNKNOWN'\<close>: a code that is missing or the empty string is falsy.
\<close>

definition code_or_unknown :: "string option \<Rightarrow> string" where
  "code_or_unknown c = (case c of None \<Rightarrow> ''UNKNOWN'' | Some x \<Rightarrow> if x = [] then ''UNKNOWN'' else x)"

text \<open>worker.js, \<open>processFile\<close>, with its \<open>catch\<close>.\<close>

definition processFile :: "host \<Rightarrow> jsstring \<Rightarrow> nat \<Rightarrow> complete_message" where
  "processFile h filePath workerId =
     (case snd (countWords (toLowerCase h) (fs h) filePath) of
        Inr results \<Rightarrow>
          \<lparr>msg_workerId = workerId, msg_filePath = filePath,
           msg_outcome = Succeeded
             \<lparr>data_wordMap = mapToObject (wordMap results),
              data_totalWords = totalWords results,
              data_uniqueWords = uniqueWords results,
              data_linesProcessed = linesProcessed results\<rparr>\<rparr>
      | Inl error \<Rightarrow>
          \<lparr>msg_workerId = workerId, msg_filePath = filePath,
           msg_outcome = Failed
             \<lparr>message = thrown_message error, code = code_or_unknown (thrown_code error)\<rparr>\<rparr>)"

text \<open>
  \<open>createWorker\<close> resolves with the worker's \<open>complete\<close> message, or, on the worker's
  \<open>error\<close> event, with a failure of its own making.
\<close>

definition createWorker :: "host \<Rightarrow> jsstring \<Rightarrow> nat \<Rightarrow> complete_message" where
  "createWorker h filePath workerId =
     (case worker_fault h filePath of
        Some text \<Rightarrow>
          \<lparr>msg_workerId = workerId, msg_filePath = filePath,
           msg_outcome = Failed \<lparr>message = Uncaught text, code = ''WORKER_ERROR''\<rparr>\<rparr>
      | None \<Rightarrow> processFile h filePath workerId)"

record success_entry =
  ok_filePath :: jsstring
  ok_uniqueWords :: nat
  ok_totalWords :: nat
  ok_linesProcessed :: nat

record failed_entry =
  failed_filePath :: jsstring
  failed_error :: error_info

record results =
  successful :: "success_entry list"
  failed :: "failed_entry list"
  combinedWordMap :: "(jsstring, nat) js_map"
  results_totalWords :: nat
  totalUniqueWords :: nat
  totalLinesProcessed :: nat

definition empty_results :: results where
  "empty_results =
     \<lparr>successful = [], failed = [], combinedWordMap = [], results_totalWords = 0,
      totalUniqueWords = 0, totalLinesProcessed = 0\<rparr>"

text \<open>The body of \<^verbatim>\<open>for (const result of batchResults)\<close>.\<close>

definition record_result :: "results \<Rightarrow> complete_message \<Rightarrow> results" where
  "record_result rs result =
     (case msg_outcome result of
        Succeeded d \<Rightarrow>
          rs\<lparr>successful := successful rs @
               [\<lparr>ok_filePath = msg_filePath result, ok_uniqueWords = data_uniqueWords d,
                 ok_totalWords = data_totalWords d, ok_linesProcessed = data_linesProcessed d\<rparr>],
             combinedWordMap := mergeMaps [combinedWordMap rs, objectToMap (data_wordMap d)],
             results_totalWords := results_totalWords rs + data_totalWords d,
             totalLinesProcessed := totalLinesProcessed rs + data_linesProcessed d\<rparr>
      | Failed e \<Rightarrow>
          rs\<lparr>failed := failed rs @ [\<lparr>failed_filePath = msg_filePath result, failed_error = e\<rparr>]\<rparr>)"

text \<open>\<^verbatim>\<open>Math.max(1, Math.min(maxWorkers, files.length, numCPUs))\<close>\<close>

definition effectiveWorkers :: "int \<Rightarrow> nat \<Rightarrow> nat \<Rightarrow> nat" where
  "effectiveWorkers maxWorkers fileCount numCPUs =
     nat (max 1 (min maxWorkers (min (int fileCount) (int numCPUs))))"

text \<open>
  The state of the run: the results, and the workers created so far, batch by batch,
  each with its file and its id.
\<close>

record run =
  run_results :: results
  launched :: "(jsstring \<times> nat) list list"

text \<open>
  \<^verbatim>\<open>for (let i = 0; i < files.length; i += effectiveWorkers)\<close>. The step is the constant
  \<open>effectiveWorkers\<close> of the source, which is at least 1, so that the loop ends.
\<close>

function batch_loop :: "host \<Rightarrow> int \<Rightarrow> jsstring list \<Rightarrow> nat \<Rightarrow> run \<Rightarrow> run" where
  "batch_loop h maxWorkers files i st =
     (let step = effectiveWorkers maxWorkers (length files) (cpus h)
      in if i < length files then
           let batch = Array_slice files (int i) (int (i + step));
               workers = map (\<lambda>(file, index). (file, i + index + 1)) (zip batch [0..<length batch]);
               batchResults = map (\<lambda>(file, workerId). createWorker h file workerId) workers
           in batch_loop h maxWorkers files (i + step)
                \<lparr>run_results = foldl record_result (run_results st) batchResults,
                 launched = launched st @ [workers]\<rparr>
         else st)"
  by pat_completeness auto
termination
  by (relation "measure (\<lambda>(h, maxWorkers, files, i, st). length files - i)")
     (auto simp: effectiveWorkers_def)

declare batch_loop.simps [simp del]

text \<open>
  \<open>files\<close> is \<open>None\<close> for \<open>null\<close> or \<open>undefined\<close>; \<open>maxWorkers\<close> is \<open>None\<close> when the
  option is unset (\<open>??\<close> then takes the number of CPUs).
\<close>

definition processFilesInParallel :: "host \<Rightarrow> jsstring list option \<Rightarrow> int option \<Rightarrow> run" where
  "processFilesInParallel h files opt_maxWorkers =
     (let maxWorkers = (case opt_maxWorkers of None \<Rightarrow> int (cpus h) | Some m \<Rightarrow> m)
      in case files of
           None \<Rightarrow> \<lparr>run_results = empty_results, launched = []\<rparr>
         | Some fl \<Rightarrow>
             if length fl = 0 then \<lparr>run_results = empty_results, launched = []\<rparr>
             else
               let st = batch_loop h maxWorkers fl 0 \<lparr>run_results = empty_results, launched = []\<rparr>
               in st\<lparr>run_results :=
                     (run_results st)\<lparr>totalUniqueWords := Map_size (combinedWordMap (run_results st))\<rparr>\<rparr>)"

text \<open>
  The files with indices from \<open>i\<close> up to \<open>i + e\<close>, as far as there are files, each
  with its index plus one.
\<close>

definition batch_at :: "jsstring list \<Rightarrow> nat \<Rightarrow> nat \<Rightarrow> (jsstring \<times> nat) list" where
  "batch_at files i e = map (\<lambda>k. (files ! k, k + 1)) [i..<min (i + e) (length files)]"

text \<open>
  What the worker of a file ends with, and what \<open>record_result\<close> makes of it: an entry
  of the failed list, or an entry of the successful list and a map to merge. The
  worker's id enters none of them.
\<close>

definition file_outcome :: "host \<Rightarrow> jsstring \<Rightarrow> outcome" where
  "file_outcome h f = msg_outcome (createWorker h f 0)"

definition failed_entry_of :: "host \<Rightarrow> jsstring \<Rightarrow> failed_entry option" where
  "failed_entry_of h f =
     (case file_outcome h f of
        Failed e \<Rightarrow> Some \<lparr>failed_filePath = f, failed_error = e\<rparr>
      | Succeeded d \<Rightarrow> None)"

definition success_entry_of :: "host \<Rightarrow> jsstring \<Rightarrow> success_entry option" where
  "success_entry_of h f =
     (case file_outcome h f of
        Failed e \<Rightarrow> None
      | Succeeded d \<Rightarrow>
          Some \<lparr>ok_filePath = f, ok_uniqueWords = data_uniqueWords d,
                ok_totalWords = data_totalWords d, ok_linesProcessed = data_linesProcessed d\<rparr>)"

definition success_map_of :: "host \<Rightarrow> jsstring \<Rightarrow> (jsstring, nat) js_map option" where
  "success_map_of h f =
     (case file_outcome h f of
        Failed e \<Rightarrow> None
      | Succeeded d \<Rightarrow> Some (objectToMap (data_wordMap d)))"

text \<open>
  The scan of a file whose worker ends in success: the state that \<open>countWords\<close> reaches
  on the lines of the file.
\<close>

definition scanned :: "host \<Rightarrow> jsstring \<Rightarrow> scan_state option" where
  "scanned h f =
     (case worker_fault h f of
        Some text \<Rightarrow> None
      | None \<Rightarrow>
          (case fs h f of
             Some (File lines) \<Rightarrow> Some (scan_lines (toLowerCase h) lines)
           | _ \<Rightarrow> None))"

section \<open>Hosts for evaluation\<close>

text \<open>
  Three files that read without error, one of them with the token \<open>__proto__\<close>, a file
  whose stream breaks after its first line, and a directory; \<open>b.txt\<close> does not exist.
  No worker thread dies.
\<close>

definition example_host :: host where
  "example_host =
     \<lparr>toLowerCase = toLowerCase_latin1,
      fs = [ascii ''a.txt'' \<mapsto> File [ascii ''Hello, hello WORLD!''],
            ascii ''c.txt'' \<mapsto> File [ascii ''hello __proto__'', ascii ''x''],
            ascii ''d.txt'' \<mapsto> File [ascii ''hello there''],
            ascii ''e.txt'' \<mapsto> Unreadable [ascii ''lost words''] (ascii ''EIO: i/o error, read'') ''EIO'',
            ascii ''data'' \<mapsto> Directory],
      cpus = 8,
      worker_fault = Map.empty\<rparr>"

section \<open>The Normalizer in the words of the specification\<close>

text \<open>
  The words of a string: the maximal runs of characters that are not white space, in
  order. None is empty.
\<close>

fun words_from :: "jsstring \<Rightarrow> jsstring \<Rightarrow> jsstring list" where
  "words_from w [] = (if w = [] then [] else [w])"
| "words_from w (c # cs) =
     (if is_whitespace c then (if w = [] then [] else [w]) @ words_from [] cs
      else words_from (w @ [c]) cs)"

text \<open>
  Lowercase the line, replace every character that is not kept by a single space, split
  on runs of white space and discard the empty results; \<open>keeps\<close> says which characters
  are kept.
\<close>

definition spec_normalize ::
  "(jschar \<Rightarrow> bool) \<Rightarrow> (jsstring \<Rightarrow> jsstring) \<Rightarrow> jsstring \<Rightarrow> jsstring list" where
  "spec_normalize keeps lc line =
     words_from [] (map (\<lambda>c. if keeps c then c else 0x20) (lc line))"

text \<open>
  "A letter (including accented letters)", in the words of the specification, for the
  code units below \<open>0x100\<close>: the letters of Basic Latin and of the Latin-1
  Supplement, which are \<open>A-Z\<close>, \<open>a-z\<close>, the ordinal indicators and the micro sign,
  and \<open>0xC0-0xFF\<close> without the multiplication and division signs. The letters of the
  other blocks are not listed: the lines on which the two readings are compared stay
  below \<open>0x100\<close>.
\<close>

definition spec_letter :: "jschar \<Rightarrow> bool" where
  "spec_letter c \<longleftrightarrow>
     (0x41 \<le> c \<and> c \<le> 0x5A) \<or> (0x61 \<le> c \<and> c \<le> 0x7A) \<or> c \<in> set [0xAA, 0xB5, 0xBA]
     \<or> (0xC0 \<le> c \<and> c \<le> 0xFF \<and> c \<noteq> 0xD7 \<and> c \<noteq> 0xF7)"

text \<open>"a letter (including accented letters), a digit/underscore-class character, or whitespace"\<close>

definition spec_keeps :: "jschar \<Rightarrow> bool" where
  "spec_keeps c \<longleftrightarrow> spec_letter c \<or> is_digit c \<or> c = 0x5F \<or> is_whitespace c"

text \<open>
  The letters that the source lists: the unaccented letters \<open>A-Z\<close> and \<open>a-z\<close>, and the
  vowels with an acute, a grave, a circumflex or a diaeresis and the n with a tilde,
  small or capital.
\<close>

definition listed_letter :: "jschar \<Rightarrow> bool" where
  "listed_letter c \<longleftrightarrow>
     (0x41 \<le> c \<and> c \<le> 0x5A) \<or> (0x61 \<le> c \<and> c \<le> 0x7A)
     \<or> c \<in> set [0xE0, 0xE1, 0xE2, 0xE4, 0xE8, 0xE9, 0xEA, 0xEB, 0xEC, 0xED, 0xEE, 0xEF,
                 0xF1, 0xF2, 0xF3, 0xF4, 0xF6, 0xF9, 0xFA, 0xFB, 0xFC]
     \<or> c \<in> set [0xC0, 0xC1, 0xC2, 0xC4, 0xC8, 0xC9, 0xCA, 0xCB, 0xCC, 0xCD, 0xCE, 0xCF,
                 0xD1, 0xD2, 0xD3, 0xD4, 0xD6, 0xD9, 0xDA, 0xDB, 0xDC]"

definition listed_keeps :: "jschar \<Rightarrow> bool" where
  "listed_keeps c \<longleftrightarrow> listed_letter c \<or> is_digit c \<or> c = 0x5F \<or> is_whitespace c"

section \<open>Properties of Map\<close>

lemma or_zero_count_of: "or_zero (Map_get m w) = count_of m w"
  by (simp add: or_zero_def count_of_def split: option.splits)

lemma Map_get_set: "Map_get (Map_set k v m) k' = (if k' = k then Some v else Map_get m k')"
  by (induction m) (auto simp: Map_get_def)

lemma Map_keys_set: "Map_keys (Map_set k v m) = insert k (Map_keys m)"
  by (induction m) (auto simp: Map_keys_def)

lemma Map_wf_set: "Map_wf m \<Longrightarrow> Map_wf (Map_set k v m)"
proof (induction m)
  case Nil
  show ?case by (simp add: Map_wf_def)
next
  case (Cons e m)
  have "fst ` set (Map_set k v m) = insert k (fst ` set m)"
    using Map_keys_set [of k v m] by (simp add: Map_keys_def)
  with Cons show ?case by (auto simp: Map_wf_def)
qed

lemma Map_set_fresh: "k \<notin> Map_keys m \<Longrightarrow> Map_set k v m = m @ [(k, v)]"
  by (induction m) (auto simp: Map_keys_def)

lemma Map_get_None_iff: "Map_get m k = None \<longleftrightarrow> k \<notin> Map_keys m"
  by (simp add: Map_get_def Map_keys_def map_of_eq_None_iff)

lemma count_of_fresh: "k \<notin> Map_keys m \<Longrightarrow> count_of m k = 0"
  using Map_get_None_iff [of m k] by (simp add: count_of_def)

section \<open>Properties of mergeMaps\<close>

lemma contrib_Nil: "contrib [] w = 0"
  by (simp add: contrib_def)

lemma contrib_Cons: "contrib (e # m) w = (if fst e = w then snd e else 0) + contrib m w"
  by (simp add: contrib_def)

lemma contrib_fresh: "w \<notin> Map_keys m \<Longrightarrow> contrib m w = 0"
  by (induction m) (auto simp: contrib_Nil contrib_Cons Map_keys_def)

lemma contrib_wf: "Map_wf m \<Longrightarrow> contrib m w = count_of m w"
proof (induction m)
  case Nil
  show ?case by (simp add: contrib_Nil count_of_def Map_get_def)
next
  case (Cons e m)
  then have wf: "Map_wf m" and fresh: "fst e \<notin> Map_keys m"
    by (auto simp: Map_wf_def Map_keys_def)
  show ?case
  proof (cases "fst e = w")
    case True
    with fresh have "contrib m w = 0" by (simp add: contrib_fresh)
    with True show ?thesis
      by (cases e) (simp add: contrib_Cons count_of_def Map_get_def)
  next
    case False
    with Cons.IH [OF wf] show ?thesis
      by (cases e) (simp add: contrib_Cons count_of_def Map_get_def)
  qed
qed

lemma Map_wf_merge_entry: "Map_wf merged \<Longrightarrow> Map_wf (merge_entry merged e)"
  by (cases e) (simp add: merge_entry_def Map_wf_set)

lemma Map_wf_merge_into: "Map_wf merged \<Longrightarrow> Map_wf (merge_into merged m)"
  unfolding merge_into_def
  by (induction m arbitrary: merged) (simp_all add: Map_wf_merge_entry)

lemma Map_wf_fold_merge: "Map_wf merged \<Longrightarrow> Map_wf (foldl merge_into merged ms)"
  by (induction ms arbitrary: merged) (simp_all add: Map_wf_merge_into)

lemma Map_wf_mergeMaps: "Map_wf (mergeMaps ms)"
  unfolding mergeMaps_def by (rule Map_wf_fold_merge) (simp add: Map_wf_def)

lemma Map_get_merge_entry:
  "Map_get (merge_entry merged e) w =
     (if fst e = w then Some (count_of merged w + snd e) else Map_get merged w)"
  by (cases e) (auto simp: merge_entry_def Map_get_set or_zero_count_of)

lemma Map_get_merge_into:
  "Map_get (merge_into merged m) w =
     (if w \<in> Map_keys m then Some (count_of merged w + contrib m w) else Map_get merged w)"
  unfolding merge_into_def
proof (induction m arbitrary: merged)
  case Nil
  show ?case by (simp add: Map_keys_def)
next
  case (Cons e m)
  have step: "count_of (merge_entry merged e) w =
      (if fst e = w then count_of merged w + snd e else count_of merged w)"
    by (simp add: count_of_def Map_get_merge_entry)
  have fresh: "w \<notin> fst ` set m \<Longrightarrow> contrib m w = 0"
    using contrib_fresh [of w m] by (simp add: Map_keys_def)
  show ?case
    by (simp add: Cons.IH step Map_get_merge_entry contrib_Cons Map_keys_def fresh)
qed

lemma count_of_merge_into: "count_of (merge_into merged m) w = count_of merged w + contrib m w"
  by (simp add: count_of_def Map_get_merge_into contrib_fresh split: option.splits)

lemma Map_keys_merge_into: "Map_keys (merge_into merged m) = Map_keys merged \<union> Map_keys m"
proof -
  have "w \<in> Map_keys (merge_into merged m) \<longleftrightarrow> w \<in> Map_keys merged \<union> Map_keys m" for w
    using Map_get_None_iff [of "merge_into merged m" w] Map_get_None_iff [of merged w]
    by (auto simp: Map_get_merge_into split: if_splits)
  then show ?thesis by blast
qed

lemma count_of_fold_merge:
  "count_of (foldl merge_into merged ms) w = count_of merged w + (\<Sum>m\<leftarrow>ms. contrib m w)"
  by (induction ms arbitrary: merged) (simp_all add: count_of_merge_into)

lemma Map_keys_fold_merge:
  "Map_keys (foldl merge_into merged ms) = Map_keys merged \<union> (\<Union>m\<in>set ms. Map_keys m)"
  by (induction ms arbitrary: merged) (auto simp: Map_keys_merge_into)

lemma count_of_empty: "count_of [] w = 0"
  by (simp add: count_of_def Map_get_def)

lemma count_of_mergeMaps: "count_of (mergeMaps ms) w = (\<Sum>m\<leftarrow>ms. contrib m w)"
  by (simp add: mergeMaps_def count_of_fold_merge count_of_empty)

lemma Map_keys_mergeMaps: "Map_keys (mergeMaps ms) = (\<Union>m\<in>set ms. Map_keys m)"
  by (simp add: mergeMaps_def Map_keys_fold_merge) (simp add: Map_keys_def)

lemma Map_get_count_of: "Map_get m w = (if w \<in> Map_keys m then Some (count_of m w) else None)"
  using Map_get_None_iff [of m w] by (auto simp: count_of_def)

lemma Map_get_mergeMaps:
  "Map_get (mergeMaps ms) w =
     (if \<exists>m\<in>set ms. w \<in> Map_keys m then Some (\<Sum>m\<leftarrow>ms. contrib m w) else None)"
  by (simp add: Map_get_count_of [of "mergeMaps ms"] Map_keys_mergeMaps count_of_mergeMaps)

lemma sum_contrib_wf:
  "\<forall>m\<in>set ms. Map_wf m \<Longrightarrow> (\<Sum>m\<leftarrow>ms. contrib m w) = (\<Sum>m\<leftarrow>ms. count_of m w)"
  by (induction ms) (simp_all add: contrib_wf)

lemma merge_into_fresh:
  "Map_wf (merged @ m) \<Longrightarrow> merge_into merged m = merged @ m"
  unfolding merge_into_def
proof (induction m arbitrary: merged)
  case Nil
  show ?case by simp
next
  case (Cons e m)
  obtain k c where e: "e = (k, c)" by (cases e)
  from Cons.prems have fresh: "k \<notin> Map_keys merged"
    by (auto simp: Map_wf_def Map_keys_def e)
  then have "merge_entry merged e = merged @ [e]"
    by (simp add: merge_entry_def e or_zero_count_of count_of_fresh Map_set_fresh)
  moreover from Cons.prems have "Map_wf ((merged @ [e]) @ m)" by simp
  ultimately show ?case using Cons.IH [of "merged @ [e]"] by simp
qed


lemma sum_list_contrib_mset:
  assumes "mset ms = mset ms'"
  shows "(\<Sum>m\<leftarrow>ms. contrib m w) = (\<Sum>m\<leftarrow>ms'. contrib m w)"
proof -
  from assms have "mset (map (\<lambda>m. contrib m w) ms) = mset (map (\<lambda>m. contrib m w) ms')"
    by simp
  then show ?thesis by (metis sum_mset_sum_list)
qed

lemma mergeMaps_permuted:
  assumes "mset ms = mset ms'"
  shows "Map_get (mergeMaps ms) = Map_get (mergeMaps ms')"
proof
  fix w
  from assms have "set ms = set ms'" by (rule mset_eq_setD)
  with sum_list_contrib_mset [OF assms, of w]
  show "Map_get (mergeMaps ms) w = Map_get (mergeMaps ms') w"
    by (simp add: Map_get_mergeMaps)
qed

lemma contrib_mergeMaps: "contrib (mergeMaps ms) w = (\<Sum>m\<leftarrow>ms. contrib m w)"
  using count_of_mergeMaps [of ms w] by (simp add: contrib_wf Map_wf_mergeMaps)

lemma mergeMaps_regrouped:
  "Map_get (mergeMaps [mergeMaps [A, B], C]) = Map_get (mergeMaps [A, mergeMaps [B, C]])"
proof
  fix w
  show "Map_get (mergeMaps [mergeMaps [A, B], C]) w = Map_get (mergeMaps [A, mergeMaps [B, C]]) w"
    by (simp add: Map_get_mergeMaps Map_keys_mergeMaps contrib_mergeMaps)
qed

text \<open>
  C1: merge is associative and commutative. Merging \<open>merge(A, B)\<close> with \<open>C\<close> gives the
  same mapping from tokens to counts as merging \<open>A\<close> with \<open>merge(B, C)\<close>; merging a
  collection of maps in any order gives the same mapping; and the merged count of a
  token is the sum, over the maps merged, of each map's count for it, absence counted
  as 0 (a token is absent from the result when it is absent from every map).
\<close>

theorem mergeMaps_assoc_comm:
  assumes "\<forall>m\<in>set ms. Map_wf m" and "mset ms' = mset ms"
  shows "Map_get (mergeMaps [mergeMaps [A, B], C]) = Map_get (mergeMaps [A, mergeMaps [B, C]])
       \<and> Map_get (mergeMaps ms') = Map_get (mergeMaps ms)
       \<and> (\<forall>w. Map_get (mergeMaps ms) w =
              (if \<exists>m\<in>set ms. w \<in> Map_keys m then Some (\<Sum>m\<leftarrow>ms. count_of m w) else None))"
proof (intro conjI allI)
  show "Map_get (mergeMaps [mergeMaps [A, B], C]) = Map_get (mergeMaps [A, mergeMaps [B, C]])"
    by (rule mergeMaps_regrouped)
  show "Map_get (mergeMaps ms') = Map_get (mergeMaps ms)"
    using assms(2) by (rule mergeMaps_permuted)
  show "Map_get (mergeMaps ms) w =
      (if \<exists>m\<in>set ms. w \<in> Map_keys m then Some (\<Sum>m\<leftarrow>ms. count_of m w) else None)" for w
    using assms(1) by (simp add: Map_get_mergeMaps sum_contrib_wf)
qed

theorem mergeMaps_assoc_comm_witness:
  "Map_wf [(ascii ''a'', 1 :: nat), (ascii ''b'', 2)] \<and> Map_wf [(ascii ''b'', 3 :: nat)]
   \<and> mset [[(ascii ''b'', 3)], [(ascii ''a'', 1), (ascii ''b'', 2)]] =
       mset [[(ascii ''a'', 1), (ascii ''b'', 2)], [(ascii ''b'', 3 :: nat)]]
   \<and> Map_get (mergeMaps [[(ascii ''b'', 3)], [(ascii ''a'', 1), (ascii ''b'', 2)]]) =
       Map_get (mergeMaps [[(ascii ''a'', 1), (ascii ''b'', 2)], [(ascii ''b'', 3)]])
   \<and> Map_get (mergeMaps [[(ascii ''a'', 1), (ascii ''b'', 2)], [(ascii ''b'', 3)]]) (ascii ''b'') =
       Some 5"
proof -
  let ?A = "[(ascii ''a'', 1 :: nat), (ascii ''b'', 2)]" and ?B = "[(ascii ''b'', 3 :: nat)]"
  have wf: "\<forall>m\<in>set [?A, ?B]. Map_wf m" by (simp add: Map_wf_def ascii_def)
  have perm: "mset [?B, ?A] = mset [?A, ?B]" by simp
  have b: "ascii ''b'' \<in> Map_keys ?B" by (simp add: Map_keys_def)
  have sum: "(\<Sum>m\<leftarrow>[?A, ?B]. count_of m (ascii ''b'')) = 5"
    by (simp add: count_of_def Map_get_def ascii_def)
  from mergeMaps_assoc_comm [OF wf perm, of ?A ?B ?B]
  have "Map_get (mergeMaps [?B, ?A]) = Map_get (mergeMaps [?A, ?B])"
    and "Map_get (mergeMaps [?A, ?B]) (ascii ''b'') =
          (if \<exists>m\<in>set [?A, ?B]. ascii ''b'' \<in> Map_keys m
           then Some (\<Sum>m\<leftarrow>[?A, ?B]. count_of m (ascii ''b'')) else None)"
    by blast+
  with wf perm b sum show ?thesis by simp
qed

text \<open>
  C9: the empty map is an identity of merge. Merging a map with the empty map, on either
  side, returns a map with the same entries, in the same order.
\<close>

theorem mergeMaps_empty_identity:
  assumes "Map_wf A"
  shows "mergeMaps [A, []] = A \<and> mergeMaps [[], A] = A"
  using assms merge_into_fresh [of "[]" A]
  by (simp add: mergeMaps_def merge_into_def)

theorem mergeMaps_empty_identity_witness:
  "Map_wf [(ascii ''hello'', 2 :: nat), (ascii ''world'', 1)]
   \<and> mergeMaps [[(ascii ''hello'', 2), (ascii ''world'', 1)], []] =
       [(ascii ''hello'', 2), (ascii ''world'', 1)]
   \<and> mergeMaps [[], [(ascii ''hello'', 2), (ascii ''world'', 1)]] =
       [(ascii ''hello'', 2), (ascii ''world'', 1)]"
proof -
  have wf: "Map_wf [(ascii ''hello'', 2 :: nat), (ascii ''world'', 1)]"
    by (simp add: Map_wf_def ascii_def)
  with mergeMaps_empty_identity [OF wf] show ?thesis by simp
qed

section \<open>Properties of normalizeLine\<close>

lemma upper_accented: "c + 0x20 \<in> set accented \<longleftrightarrow>
      c \<in> set [0xC0, 0xC1, 0xC2, 0xC4, 0xC8, 0xC9, 0xCA, 0xCB, 0xCC, 0xCD, 0xCE, 0xCF,
                 0xD1, 0xD2, 0xD3, 0xD4, 0xD6, 0xD9, 0xDA, 0xDB, 0xDC]"
proof -
  have "c + 0x20 = a \<longleftrightarrow> c = a - 0x20" for a :: jschar by auto
  then show ?thesis unfolding accented_def list.set insert_iff empty_iff by simp blast
qed

lemma in_class_listed: "in_class c = listed_keeps c"
  unfolding in_class_def listed_keeps_def listed_letter_def is_word_char_def is_digit_def upper_accented
  unfolding accented_def list.set insert_iff empty_iff
  by blast

lemma split_whitespace_ne: "split_whitespace s \<noteq> []"
  by (subst split_whitespace.simps) (simp add: Let_def)

lemma split_whitespace_Nil: "split_whitespace [] = [[]]"
  by (subst split_whitespace.simps) simp

lemma split_whitespace_space:
  "is_whitespace c \<Longrightarrow> split_whitespace (c # cs) = [] # split_whitespace (dropWhile is_whitespace cs)"
  by (subst split_whitespace.simps) simp

lemma split_whitespace_char:
  "\<not> is_whitespace c \<Longrightarrow>
     split_whitespace (c # cs) = (c # hd (split_whitespace cs)) # tl (split_whitespace cs)"
  by (subst split_whitespace.simps, subst (2 3) split_whitespace.simps) (simp add: Let_def)

lemma filter_split_dropWhile:
  "filter (\<lambda>w. length w > 0) (split_whitespace (dropWhile is_whitespace cs)) =
   filter (\<lambda>w. length w > 0) (split_whitespace cs)"
proof (cases cs)
  case Nil
  then show ?thesis by simp
next
  case (Cons c cs')
  then show ?thesis by (cases "is_whitespace c") (simp_all add: split_whitespace_space)
qed

lemma words_from_split:
  "words_from w s =
     filter (\<lambda>w. length w > 0) ((w @ hd (split_whitespace s)) # tl (split_whitespace s))"
proof (induction s arbitrary: w)
  case Nil
  show ?case by (simp add: split_whitespace_Nil)
next
  case (Cons c cs)
  show ?case
  proof (cases "is_whitespace c")
    case True
    have "filter (\<lambda>w. length w > 0) (hd (split_whitespace cs) # tl (split_whitespace cs)) =
        filter (\<lambda>w. length w > 0) (split_whitespace cs)"
      using split_whitespace_ne [of cs] by simp
    with True show ?thesis
      using Cons.IH [of "[]"] filter_split_dropWhile [of cs]
      by (simp add: split_whitespace_space)
  next
    case False
    then show ?thesis using Cons.IH [of "w @ [c]"] by (simp add: split_whitespace_char)
  qed
qed

lemma normalizeLine_words: "normalizeLine lc line = words_from [] (replace_punctuation (lc line))"
  using split_whitespace_ne [of "replace_punctuation (lc line)"]
  by (simp add: normalizeLine_def words_from_split)


text \<open>
  C2, as the specification words it, fails: the cedilla letter \<open>0xE7\<close> is a letter, and
  the source replaces it by a space, so that the word is cut in two.
\<close>

theorem normalizeLine_letter_counterexample:
  "spec_letter 0xE7
   \<and> normalizeLine toLowerCase_latin1 [0x66, 0x72, 0x61, 0x6E, 0xE7, 0x61, 0x69, 0x73] =
       [[0x66, 0x72, 0x61, 0x6E], [0x61, 0x69, 0x73]]
   \<and> spec_normalize spec_keeps toLowerCase_latin1 [0x66, 0x72, 0x61, 0x6E, 0xE7, 0x61, 0x69, 0x73] =
       [[0x66, 0x72, 0x61, 0x6E, 0xE7, 0x61, 0x69, 0x73]]"
  by code_simp

text \<open>
  C2, amended: for every line, \<open>normalizeLine\<close> returns the sequence obtained by
  lowercasing the line, replacing by a single space every character that is not one of
  the letters the source lists (\<open>A-Z\<close>, \<open>a-z\<close>, and the vowels with an acute, a grave,
  a circumflex or a diaeresis and the n with a tilde, small or capital), a digit, an
  underscore or white space, splitting on runs of white space and discarding the empty
  results; and \<open>Hello, hello WORLD!\<close>, which lowercases to \<open>hello, hello world!\<close>,
  yields \<open>hello\<close>, \<open>hello\<close>, \<open>world\<close>.
\<close>

theorem normalizeLine_refines_spec:
  "normalizeLine lc line = spec_normalize listed_keeps lc line
   \<and> (lc (ascii ''Hello, hello WORLD!'') = ascii ''hello, hello world!'' \<longrightarrow>
        normalizeLine lc (ascii ''Hello, hello WORLD!'') =
          [ascii ''hello'', ascii ''hello'', ascii ''world''])"
proof
  have "replace_punctuation s = map (\<lambda>c. if listed_keeps c then c else 0x20) s" for s
    by (simp add: replace_punctuation_def in_class_listed)
  then show "normalizeLine lc line = spec_normalize listed_keeps lc line"
    by (simp add: normalizeLine_words spec_normalize_def)
next
  have "words_from [] (replace_punctuation (ascii ''hello, hello world!'')) =
      [ascii ''hello'', ascii ''hello'', ascii ''world'']"
    by code_simp
  then show "lc (ascii ''Hello, hello WORLD!'') = ascii ''hello, hello world!'' \<longrightarrow>
      normalizeLine lc (ascii ''Hello, hello WORLD!'') =
        [ascii ''hello'', ascii ''hello'', ascii ''world'']"
    by (simp add: normalizeLine_words)
qed

theorem normalizeLine_refines_spec_witness:
  "toLowerCase_latin1 (ascii ''Hello, hello WORLD!'') = ascii ''hello, hello world!''
   \<and> normalizeLine toLowerCase_latin1 (ascii ''Hello, hello WORLD!'') =
       [ascii ''hello'', ascii ''hello'', ascii ''world'']"
proof -
  have lower: "toLowerCase_latin1 (ascii ''Hello, hello WORLD!'') = ascii ''hello, hello world!''"
    by code_simp
  with normalizeLine_refines_spec [of toLowerCase_latin1 "ascii ''Hello, hello WORLD!''"]
  show ?thesis by blast
qed


section \<open>Properties of getTopWords\<close>

lemma Array_slice_prefix: "0 \<le> n \<Longrightarrow> Array_slice xs 0 n = take (nat n) xs"
  by (simp add: Array_slice_def relative_index_def Let_def min_def)

lemma mset_insert_sorted: "mset (insert_sorted cmp x xs) = add_mset x (mset xs)"
  by (induction xs) simp_all

lemma mset_Array_sort: "mset (Array_sort cmp xs) = mset xs"
  unfolding Array_sort_def by (induction xs) (simp_all add: mset_insert_sorted)

lemma set_insert_sorted: "set (insert_sorted cmp x xs) = insert x (set xs)"
  using mset_insert_sorted [of cmp x xs, THEN arg_cong, of set_mset] by simp

lemma length_Array_sort: "length (Array_sort cmp xs) = length xs"
  using mset_Array_sort [of cmp xs, THEN arg_cong, of size] by simp

lemma sorted_insert_sorted:
  "sorted_wrt (\<lambda>a b. snd b \<le> snd a) xs \<Longrightarrow>
     sorted_wrt (\<lambda>a b. snd b \<le> snd a) (insert_sorted by_count_desc x xs)"
proof (induction xs)
  case Nil
  show ?case by simp
next
  case (Cons y ys)
  show ?case
  proof (cases "by_count_desc x y \<le> 0")
    case True
    then have "snd y \<le> snd x" by (simp add: by_count_desc_def)
    with Cons.prems True show ?thesis by auto
  next
    case False
    then have "snd x \<le> snd y" by (simp add: by_count_desc_def)
    with Cons False show ?thesis by (auto simp: set_insert_sorted)
  qed
qed

lemma sorted_Array_sort: "sorted_wrt (\<lambda>a b. snd b \<le> snd a) (Array_sort by_count_desc xs)"
  unfolding Array_sort_def by (induction xs) (simp_all add: sorted_insert_sorted)

lemma getTopWords_take:
  "0 \<le> n \<Longrightarrow> getTopWords m n = map top_entry (take (nat n) (Array_sort by_count_desc m))"
  by (simp add: getTopWords_def Array_slice_prefix)

text \<open>
  C7: for every map and every \<open>n \<ge> 0\<close>, \<open>getTopWords\<close> returns pairs of token and count
  sorted by count descending and truncated to the first \<open>n\<close>: it is the first \<open>n\<close>
  entries of the complete ordering, which is what any \<open>k\<close> from the number of distinct
  tokens on returns and which holds every entry of the map once. \<open>n = 0\<close> yields the
  empty sequence.
\<close>

theorem getTopWords_sorted_truncated:
  assumes "0 \<le> n" and "int (Map_size m) \<le> k"
  shows "sorted_wrt (\<lambda>a b. count' b \<le> count' a) (getTopWords m n)
       \<and> getTopWords m n = take (nat n) (getTopWords m k)
       \<and> mset (getTopWords m k) = mset (map top_entry m)
       \<and> length (getTopWords m n) = min (nat n) (Map_size m)
       \<and> getTopWords m 0 = []"
proof (intro conjI)
  have "sorted_wrt (\<lambda>a b. snd b \<le> snd a) (take (nat n) (Array_sort by_count_desc m))"
    using sorted_Array_sort by (rule sorted_wrt_take)
  then show "sorted_wrt (\<lambda>a b. count' b \<le> count' a) (getTopWords m n)"
    using assms(1) by (simp add: getTopWords_take sorted_wrt_map top_entry_def case_prod_unfold)
  from assms have k: "0 \<le> k" "length m \<le> nat k" by (simp_all add: Map_size_def)
  then have full: "getTopWords m k = map top_entry (Array_sort by_count_desc m)"
    by (simp add: getTopWords_take length_Array_sort)
  then show "getTopWords m n = take (nat n) (getTopWords m k)"
    using assms(1) by (simp add: getTopWords_take take_map)
  show "mset (getTopWords m k) = mset (map top_entry m)"
    by (simp add: full mset_Array_sort)
  show "length (getTopWords m n) = min (nat n) (Map_size m)"
    using assms(1) by (simp add: getTopWords_take length_Array_sort Map_size_def)
  show "getTopWords m 0 = []"
    by (simp add: getTopWords_take)
qed

theorem getTopWords_sorted_truncated_witness:
  "(0 :: int) \<le> 2
   \<and> int (Map_size [(ascii ''a'', 1 :: nat), (ascii ''b'', 3), (ascii ''c'', 3), (ascii ''d'', 2)]) \<le> 4
   \<and> getTopWords [(ascii ''a'', 1), (ascii ''b'', 3), (ascii ''c'', 3), (ascii ''d'', 2)] 2 =
       [\<lparr>word = ascii ''b'', count' = 3\<rparr>, \<lparr>word = ascii ''c'', count' = 3\<rparr>]
   \<and> getTopWords [(ascii ''a'', 1), (ascii ''b'', 3), (ascii ''c'', 3), (ascii ''d'', 2)] 2 =
       take (nat 2) (getTopWords [(ascii ''a'', 1), (ascii ''b'', 3), (ascii ''c'', 3), (ascii ''d'', 2)] 4)
   \<and> getTopWords [(ascii ''a'', 1), (ascii ''b'', 3), (ascii ''c'', 3), (ascii ''d'', 2)] 0 = []"
proof -
  let ?m = "[(ascii ''a'', 1 :: nat), (ascii ''b'', 3), (ascii ''c'', 3), (ascii ''d'', 2)]"
  have n: "(0 :: int) \<le> 2" by simp
  have k: "int (Map_size ?m) \<le> 4" by (simp add: Map_size_def)
  have top: "getTopWords ?m 2 = [\<lparr>word = ascii ''b'', count' = 3\<rparr>, \<lparr>word = ascii ''c'', count' = 3\<rparr>]"
    by code_simp
  from getTopWords_sorted_truncated [OF n k] n k top show ?thesis by blast
qed

section \<open>Properties of countWords\<close>

lemma linesProcessed_count_word: "linesProcessed (count_word st w) = linesProcessed st"
  by (simp add: count_word_def)

lemma linesProcessed_count_line: "linesProcessed (count_line lc st line) = linesProcessed st + 1"
proof -
  have "linesProcessed (foldl count_word s ws) = linesProcessed s" for s ws
    by (induction ws arbitrary: s) (simp_all add: linesProcessed_count_word)
  then show ?thesis by (simp add: count_line_def)
qed

lemma linesProcessed_scan_lines: "linesProcessed (scan_lines lc lines) = length lines"
proof -
  have "linesProcessed (foldl (count_line lc) s ls) = linesProcessed s + length ls" for s ls
    by (induction ls arbitrary: s) (simp_all add: linesProcessed_count_line)
  then show ?thesis by (simp add: scan_lines_def)
qed


lemma count_of_Cons: "count_of (e # m) k = (if fst e = k then snd e else count_of m k)"
  by (cases e) (simp add: count_of_def Map_get_def)

lemma sum_counts_Map_set: "sum_counts (Map_set k (count_of m k + c) m) = sum_counts m + c"
  by (induction m) (simp_all add: sum_counts_def count_of_Cons count_of_empty)

lemma count_word_invariant:
  assumes "totalWords st = sum_counts (wordMap st)" and "Map_wf (wordMap st)"
  shows "totalWords (count_word st w) = sum_counts (wordMap (count_word st w))"
    and "Map_wf (wordMap (count_word st w))"
  using assms sum_counts_Map_set [of w "wordMap st" 1]
  by (simp_all add: count_word_def or_zero_count_of Map_wf_set)

lemma fold_count_word_invariant:
  assumes "totalWords st = sum_counts (wordMap st)" and "Map_wf (wordMap st)"
  shows "totalWords (foldl count_word st ws) = sum_counts (wordMap (foldl count_word st ws))
       \<and> Map_wf (wordMap (foldl count_word st ws))"
  using assms by (induction ws arbitrary: st) (simp_all add: count_word_invariant)

lemma count_line_invariant:
  assumes "totalWords st = sum_counts (wordMap st)" and "Map_wf (wordMap st)"
  shows "totalWords (count_line lc st line) = sum_counts (wordMap (count_line lc st line))
       \<and> Map_wf (wordMap (count_line lc st line))"
  unfolding count_line_def using assms by (intro fold_count_word_invariant) simp_all

lemma scan_lines_invariant:
  "totalWords (scan_lines lc ls) = sum_counts (wordMap (scan_lines lc ls))
   \<and> Map_wf (wordMap (scan_lines lc ls))"
proof -
  have "totalWords (foldl (count_line lc) st ls) = sum_counts (wordMap (foldl (count_line lc) st ls))
      \<and> Map_wf (wordMap (foldl (count_line lc) st ls))"
    if "totalWords st = sum_counts (wordMap st)" and "Map_wf (wordMap st)" for st
    using that by (induction ls arbitrary: st) (simp_all add: count_line_invariant)
  then show ?thesis by (simp add: scan_lines_def sum_counts_def Map_wf_def)
qed

lemma countWords_totalWords:
  assumes "snd (countWords lc files p) = Inr r"
  shows "totalWords r = sum_counts (wordMap r) \<and> uniqueWords r = Map_size (wordMap r)
       \<and> Map_wf (wordMap r)"
  using assms scan_lines_invariant
  by (auto simp: countWords_def Let_def split: option.splits fs_node.splits)

lemma Map_keys_count_word: "Map_keys (wordMap (count_word st w)) = insert w (Map_keys (wordMap st))"
  by (simp add: count_word_def Map_keys_set)

lemma Map_keys_scan_lines:
  "Map_keys (wordMap (scan_lines lc ls)) = set (concat (map (normalizeLine lc) ls))"
proof -
  have words: "Map_keys (wordMap (foldl count_word st ws)) = Map_keys (wordMap st) \<union> set ws" for st ws
    by (induction ws arbitrary: st) (simp_all add: Map_keys_count_word)
  have "Map_keys (wordMap (foldl (count_line lc) st ls)) =
      Map_keys (wordMap st) \<union> set (concat (map (normalizeLine lc) ls))" for st
    by (induction ls arbitrary: st) (auto simp: count_line_def words)
  then show ?thesis by (simp add: scan_lines_def Map_keys_def)
qed

text \<open>
  C6: \<open>countWords\<close> fails with \<open>ENOENT\<close> (NotFound) if the path does not exist and with
  \<open>EISDIR\<close> (IsDirectory) if it names a directory, in both cases without having opened
  anything; on any other path it opens the file and scans its lines, all of them when
  the file is read to its end, and up to the error of the stream, which it then fails
  with, otherwise.
\<close>

theorem countWords_checks_path:
  "(files p = None \<longrightarrow>
      snd (countWords lc files p) = Inl \<lparr>thrown_message = ENOENT p, thrown_code = None\<rparr>
      \<and> opened (fst (countWords lc files p)) = [])
   \<and> (files p = Some Directory \<longrightarrow>
      snd (countWords lc files p) = Inl \<lparr>thrown_message = EISDIR p, thrown_code = None\<rparr>
      \<and> opened (fst (countWords lc files p)) = [])
   \<and> (\<forall>lines. files p = Some (File lines) \<longrightarrow>
      (\<exists>r. snd (countWords lc files p) = Inr r \<and> linesProcessed r = length lines)
      \<and> opened (fst (countWords lc files p)) = [p])
   \<and> (\<forall>lines text code. files p = Some (Unreadable lines text code) \<longrightarrow>
      snd (countWords lc files p) =
        Inl \<lparr>thrown_message = SystemMessage text, thrown_code = Some code\<rparr>
      \<and> opened (fst (countWords lc files p)) = [p])"
  by (simp add: countWords_def opened_def linesProcessed_scan_lines Let_def)

theorem countWords_checks_path_witness:
  "fs example_host (ascii ''b.txt'') = None
   \<and> snd (countWords toLowerCase_latin1 (fs example_host) (ascii ''b.txt'')) =
       Inl \<lparr>thrown_message = ENOENT (ascii ''b.txt''), thrown_code = None\<rparr>
   \<and> opened (fst (countWords toLowerCase_latin1 (fs example_host) (ascii ''b.txt''))) = []
   \<and> fs example_host (ascii ''data'') = Some Directory
   \<and> snd (countWords toLowerCase_latin1 (fs example_host) (ascii ''data'')) =
       Inl \<lparr>thrown_message = EISDIR (ascii ''data''), thrown_code = None\<rparr>
   \<and> opened (fst (countWords toLowerCase_latin1 (fs example_host) (ascii ''data''))) = []
   \<and> fs example_host (ascii ''a.txt'') = Some (File [ascii ''Hello, hello WORLD!''])
   \<and> opened (fst (countWords toLowerCase_latin1 (fs example_host) (ascii ''a.txt''))) =
       [ascii ''a.txt'']
   \<and> fs example_host (ascii ''e.txt'') =
       Some (Unreadable [ascii ''lost words''] (ascii ''EIO: i/o error, read'') ''EIO'')
   \<and> snd (countWords toLowerCase_latin1 (fs example_host) (ascii ''e.txt'')) =
       Inl \<lparr>thrown_message = SystemMessage (ascii ''EIO: i/o error, read''),
         thrown_code = Some ''EIO''\<rparr>
   \<and> opened (fst (countWords toLowerCase_latin1 (fs example_host) (ascii ''e.txt''))) =
       [ascii ''e.txt'']"
proof -
  let ?files = "fs example_host"
  have absent: "?files (ascii ''b.txt'') = None"
    by (simp add: example_host_def ascii_def)
  have dir: "?files (ascii ''data'') = Some Directory"
    by (simp add: example_host_def ascii_def)
  have regular: "?files (ascii ''a.txt'') = Some (File [ascii ''Hello, hello WORLD!''])"
    by (simp add: example_host_def ascii_def)
  have broken: "?files (ascii ''e.txt'') =
      Some (Unreadable [ascii ''lost words''] (ascii ''EIO: i/o error, read'') ''EIO'')"
    by (simp add: example_host_def ascii_def)
  from countWords_checks_path [of ?files "ascii ''b.txt''" toLowerCase_latin1]
    countWords_checks_path [of ?files "ascii ''data''" toLowerCase_latin1]
    countWords_checks_path [of ?files "ascii ''a.txt''" toLowerCase_latin1]
    countWords_checks_path [of ?files "ascii ''e.txt''" toLowerCase_latin1]
    absent dir regular broken
  show ?thesis by blast
qed

section \<open>Properties of mapToObject and objectToMap\<close>

lemma mset_create_property: "mset (create_property k v obj) = add_mset (k, v) (mset obj)"
  by (induction obj) simp_all

lemma distinct_create_property:
  assumes "distinct (map fst obj)" and "k \<notin> fst ` set obj"
  shows "distinct (map fst (create_property k v obj))"
proof -
  have "mset (map fst (create_property k v obj)) = mset (k # map fst obj)"
    using mset_create_property [of k v obj, THEN arg_cong, of "image_mset fst"] by simp
  then have "distinct (map fst (create_property k v obj)) \<longleftrightarrow> distinct (k # map fst obj)"
    by (rule mset_eq_imp_distinct_iff)
  with assms show ?thesis by simp
qed

lemma mapToObject_fold:
  assumes "distinct (map fst (obj @ m))" and "ascii ''__proto__'' \<notin> fst ` set m"
  shows "mset (foldl assign_property obj m) = mset obj + mset m
       \<and> distinct (map fst (foldl assign_property obj m))"
  using assms
proof (induction m arbitrary: obj)
  case Nil
  then show ?case by simp
next
  case (Cons e m)
  obtain k v where e: "e = (k, v)" by (cases e)
  from Cons.prems have fresh: "k \<notin> fst ` set obj" and k: "k \<noteq> ascii ''__proto__''"
    by (auto simp: e)
  from fresh have none: "map_of obj k = None" by (simp add: map_of_eq_None_iff)
  have step: "assign_property obj (k, v) = create_property k v obj"
    by (simp add: assign_property_def k none)
  have set: "fst ` set (create_property k v obj) = insert k (fst ` set obj)"
    using mset_create_property [of k v obj, THEN arg_cong, of set_mset] by simp
  have "distinct (map fst (create_property k v obj @ m))"
    using Cons.prems(1) distinct_create_property [of obj k v] fresh
    by (auto simp: e set)
  moreover from Cons.prems(2) have "ascii ''__proto__'' \<notin> fst ` set m" by simp
  ultimately show ?case
    using Cons.IH [of "create_property k v obj"] by (simp add: step mset_create_property e)
qed

lemma objectToMap_fold:
  "distinct (map fst (acc @ obj)) \<Longrightarrow>
     foldl (\<lambda>m e. Map_set (fst e) (snd e) m) acc obj = acc @ obj"
proof (induction obj arbitrary: acc)
  case Nil
  show ?case by simp
next
  case (Cons e obj)
  then have "fst e \<notin> Map_keys acc" by (auto simp: Map_keys_def)
  then have "Map_set (fst e) (snd e) acc = acc @ [e]" by (simp add: Map_set_fresh)
  moreover from Cons.prems have "distinct (map fst ((acc @ [e]) @ obj))" by simp
  ultimately show ?case using Cons.IH [of "acc @ [e]"] by simp
qed

lemma roundtrip_without_proto:
  assumes "Map_wf m" and "ascii ''__proto__'' \<notin> Map_keys m"
  shows "mset (objectToMap (mapToObject m)) = mset m"
    and "Map_get (objectToMap (mapToObject m)) = Map_get m"
    and "sum_counts (objectToMap (mapToObject m)) = sum_counts m"
proof -
  from assms have obj: "mset (mapToObject m) = mset m" "distinct (map fst (mapToObject m))"
    using mapToObject_fold [of "[]" m] by (simp_all add: mapToObject_def Map_wf_def Map_keys_def)
  then have same: "objectToMap (mapToObject m) = mapToObject m"
    using objectToMap_fold [of "[]" "mapToObject m"] by (simp add: objectToMap_def)
  with obj show ms: "mset (objectToMap (mapToObject m)) = mset m" by simp
  from obj(1) have "set (mapToObject m) = set m" by (rule mset_eq_setD)
  with obj(2) assms(1) have "map_of (mapToObject m) = map_of m"
    by (simp add: map_of_inject_set Map_wf_def)
  with same show "Map_get (objectToMap (mapToObject m)) = Map_get m"
    by (auto simp: Map_get_def)
  from ms have "mset (map snd (objectToMap (mapToObject m))) = mset (map snd m)" by simp
  then show "sum_counts (objectToMap (mapToObject m)) = sum_counts m"
    unfolding sum_counts_def by (metis sum_mset_sum_list)
qed

lemma mapToObject_without_proto: "mapToObject m = mapToObject (without_proto m)"
proof -
  have "foldl assign_property obj m = foldl assign_property obj (without_proto m)" for obj
    by (induction m arbitrary: obj) (auto simp: without_proto_def assign_property_def)
  then show ?thesis by (simp add: mapToObject_def)
qed

lemma Map_get_without_proto:
  "Map_get (without_proto m) w = (if w = ascii ''__proto__'' then None else Map_get m w)"
  by (induction m) (auto simp: without_proto_def Map_get_def)

lemma Map_wf_without_proto: "Map_wf m \<Longrightarrow> Map_wf (without_proto m)"
  by (simp add: Map_wf_def without_proto_def distinct_map_filter)

lemma Map_get_roundtrip:
  assumes "Map_wf m"
  shows "Map_get (objectToMap (mapToObject m)) w =
       (if w = ascii ''__proto__'' then None else Map_get m w)"
proof -
  have "ascii ''__proto__'' \<notin> Map_keys (without_proto m)"
    by (auto simp: Map_keys_def without_proto_def)
  with assms have "Map_get (objectToMap (mapToObject (without_proto m))) = Map_get (without_proto m)"
    by (intro roundtrip_without_proto(2) Map_wf_without_proto)
  then show ?thesis
    using mapToObject_without_proto [of m] by (simp add: Map_get_without_proto)
qed

lemma Map_wf_roundtrip: "Map_wf m \<Longrightarrow> Map_wf (objectToMap (mapToObject m))"
proof -
  assume "Map_wf m"
  then have wf: "Map_wf (without_proto m)" by (rule Map_wf_without_proto)
  have np: "ascii ''__proto__'' \<notin> fst ` set (without_proto m)"
    by (auto simp: without_proto_def)
  from wf np have d: "distinct (map fst (mapToObject (without_proto m)))"
    using mapToObject_fold [of "[]" "without_proto m"] by (simp add: mapToObject_def Map_wf_def)
  then have "objectToMap (mapToObject (without_proto m)) = mapToObject (without_proto m)"
    using objectToMap_fold [of "[]" "mapToObject (without_proto m)"] by (simp add: objectToMap_def)
  with d show ?thesis using mapToObject_without_proto [of m] by (simp add: Map_wf_def)
qed

lemma Map_keys_iff: "w \<in> Map_keys m \<longleftrightarrow> Map_get m w \<noteq> None"
  using Map_get_None_iff [of m w] by simp

lemma count_of_roundtrip:
  "Map_wf m \<Longrightarrow> w \<noteq> ascii ''__proto__'' \<Longrightarrow>
     count_of (objectToMap (mapToObject m)) w = count_of m w"
  by (simp add: count_of_def Map_get_roundtrip)

lemma Map_get_mergeMaps_roundtrip:
  assumes "\<forall>m\<in>set ms. Map_wf m"
  shows "Map_get (mergeMaps (map (\<lambda>m. objectToMap (mapToObject m)) ms)) w =
       (if w = ascii ''__proto__'' then None else Map_get (mergeMaps ms) w)"
proof (cases "w = ascii ''__proto__''")
  case True
  have "\<forall>m\<in>set ms. w \<notin> Map_keys (objectToMap (mapToObject m))"
    using assms True by (simp add: Map_keys_iff Map_get_roundtrip)
  with True show ?thesis by (simp add: Map_get_mergeMaps)
next
  case False
  have keys: "w \<in> Map_keys (objectToMap (mapToObject m)) \<longleftrightarrow> w \<in> Map_keys m" if "m \<in> set ms" for m
    using assms that False by (simp add: Map_keys_iff Map_get_roundtrip)
  have "(\<Sum>m\<leftarrow>map (\<lambda>m. objectToMap (mapToObject m)) ms. contrib m w) = (\<Sum>m\<leftarrow>ms. contrib m w)"
    using assms
    by (induction ms) (simp_all add: contrib_wf Map_wf_roundtrip count_of_roundtrip False)
  with keys False show ?thesis by (simp add: Map_get_mergeMaps)
qed

text \<open>
  C10: \<open>objectToMap (mapToObject m)\<close> holds the same pairs of token and count as \<open>m\<close>.
  That holds for the maps without the token \<open>__proto__\<close> (\<open>roundtrip_without_proto\<close>)
  and fails with it: \<open>mapToObject\<close> assigns the count to \<open>obj['__proto__']\<close>, which
  creates no property, and the entry is gone. Here the map holds \<open>hello\<close> twice and
  \<open>__proto__\<close> once.
\<close>

theorem mapToObject_drops_proto:
  "Map_get [(ascii ''hello'', 2), (ascii ''__proto__'', 1 :: nat)] (ascii ''__proto__'') = Some 1
   \<and> mapToObject [(ascii ''hello'', 2), (ascii ''__proto__'', 1)] = [(ascii ''hello'', 2)]
   \<and> objectToMap (mapToObject [(ascii ''hello'', 2), (ascii ''__proto__'', 1)]) =
       [(ascii ''hello'', 2)]
   \<and> Map_get (objectToMap (mapToObject [(ascii ''hello'', 2), (ascii ''__proto__'', 1)]))
        (ascii ''__proto__'') = None"
  by code_simp

section \<open>Properties of processFilesInParallel\<close>

lemma effectiveWorkers_pos: "0 < effectiveWorkers M n U"
  by (simp add: effectiveWorkers_def)

lemma Array_slice_window:
  "i \<le> length xs \<Longrightarrow> Array_slice xs (int i) (int (i + e)) = take e (drop i xs)"
  by (simp add: Array_slice_def relative_index_def Let_def min_def flip: of_nat_add)

lemma workers_batch_at:
  assumes "i \<le> length files"
  shows "map (\<lambda>(file, index). (file, i + index + 1))
           (zip (take e (drop i files)) [0..<length (take e (drop i files))]) = batch_at files i e"
proof (rule nth_equalityI)
  show "length (map (\<lambda>(file, index). (file, i + index + 1))
           (zip (take e (drop i files)) [0..<length (take e (drop i files))])) =
        length (batch_at files i e)"
    using assms by (auto simp: batch_at_def min_def)
next
  fix k
  assume "k < length (map (\<lambda>(file, index). (file, i + index + 1))
           (zip (take e (drop i files)) [0..<length (take e (drop i files))]))"
  then have k: "k < e" "k < length files - i" by simp_all
  then have "k < length [i..<min (i + e) (length files)]" by simp
  then have "batch_at files i e ! k = (files ! (i + k), i + k + 1)"
    unfolding batch_at_def by (simp only: nth_map nth_upt length_upt less_diff_conv add.commute)
  moreover have "map (\<lambda>(file, index). (file, i + index + 1))
           (zip (take e (drop i files)) [0..<length (take e (drop i files))]) ! k =
         (files ! (i + k), i + k + 1)"
    using k assms by (simp del: upt_Suc)
  ultimately show "map (\<lambda>(file, index). (file, i + index + 1))
           (zip (take e (drop i files)) [0..<length (take e (drop i files))]) ! k =
         batch_at files i e ! k" by simp
qed

lemma batch_loop_step:
  assumes "i < length files"
  shows "batch_loop h M files i st =
     batch_loop h M files (i + effectiveWorkers M (length files) (cpus h))
       \<lparr>run_results = foldl record_result (run_results st)
          (map (\<lambda>(file, workerId). createWorker h file workerId)
             (batch_at files i (effectiveWorkers M (length files) (cpus h)))),
        launched = launched st @ [batch_at files i (effectiveWorkers M (length files) (cpus h))]\<rparr>"
proof -
  let ?E = "effectiveWorkers M (length files) (cpus h)"
  from assms have le: "i \<le> length files" by simp
  have slice: "Array_slice files (int i) (int (i + ?E)) = take ?E (drop i files)"
    using le by (rule Array_slice_window)
  show ?thesis
    by (subst batch_loop.simps)
       (simp only: Let_def assms if_True slice workers_batch_at [OF le])
qed

lemma batch_loop_done: "length files \<le> i \<Longrightarrow> batch_loop h M files i st = st"
  by (subst batch_loop.simps) (simp add: Let_def)


lemma run_results_batch_loop:
  "run_results (batch_loop h M files i st) =
     foldl record_result (run_results st)
       (map (\<lambda>k. createWorker h (files ! k) (k + 1)) [i..<length files])"
proof (induction "length files - i" arbitrary: i st rule: less_induct)
  case less
  let ?E = "effectiveWorkers M (length files) (cpus h)"
  let ?n = "length files"
  show ?case
  proof (cases "i < ?n")
    case True
    have "?n - (i + ?E) < ?n - i" using True effectiveWorkers_pos [of M ?n "cpus h"] by simp
    note IH = less.hyps [OF this]
    have split: "[i..<?n] = [i..<min (i + ?E) ?n] @ [i + ?E..<?n]"
    proof (cases "i + ?E \<le> ?n")
      case True
      then show ?thesis using upt_add_eq_append [of i "i + ?E" "?n - (i + ?E)"] by (simp add: min_def)
    next
      case False
      then show ?thesis by (simp add: min_def)
    qed
    have batch: "map (\<lambda>(file, workerId). createWorker h file workerId) (batch_at files i ?E) =
        map (\<lambda>k. createWorker h (files ! k) (k + 1)) [i..<min (i + ?E) ?n]"
      by (simp add: batch_at_def del: upt_Suc)
    have "run_results (batch_loop h M files i st) =
        run_results (batch_loop h M files (i + ?E)
          \<lparr>run_results = foldl record_result (run_results st)
             (map (\<lambda>(file, workerId). createWorker h file workerId) (batch_at files i ?E)),
           launched = launched st @ [batch_at files i ?E]\<rparr>)"
      by (simp only: batch_loop_step [OF True])
    also have "\<dots> = foldl record_result
        (foldl record_result (run_results st)
           (map (\<lambda>k. createWorker h (files ! k) (k + 1)) [i..<min (i + ?E) ?n]))
        (map (\<lambda>k. createWorker h (files ! k) (k + 1)) [i + ?E..<?n])"
      by (simp only: IH run.simps batch)
    also have "\<dots> = foldl record_result (run_results st)
        (map (\<lambda>k. createWorker h (files ! k) (k + 1)) ([i..<min (i + ?E) ?n] @ [i + ?E..<?n]))"
      by (simp only: map_append foldl_append)
    finally show ?thesis by (simp only: split [symmetric])
  next
    case False
    then show ?thesis by (simp add: batch_loop_done)
  qed
qed

lemma batches_count_step:
  assumes "i < n" and "0 < (e :: nat)"
  shows "(n - i + e - 1) div e = Suc ((n - (i + e) + e - 1) div e)"
proof (cases "i + e \<le> n")
  case True
  have add: "(x + e) div e = Suc (x div e)" for x :: nat
    using assms(2) div_add_self2 [of e x] by auto
  from True assms have "n - i + e - 1 = (n - (i + e) + e - 1) + e" by simp
  then show ?thesis by (simp only: add)
next
  case False
  with assms have "e \<le> n - i + e - 1" "n - i + e - 1 < e * 2" by simp_all
  then have "(n - i + e - 1) div e = 1" by (intro div_nat_eqI) simp_all
  moreover from False have "(n - (i + e) + e - 1) div e = 0" using assms(2) by simp
  ultimately show ?thesis by simp
qed

lemma launched_batch_loop:
  "launched (batch_loop h M files i st) =
     launched st @
     map (\<lambda>j. batch_at files (i + j * effectiveWorkers M (length files) (cpus h))
                 (effectiveWorkers M (length files) (cpus h)))
       [0..<(length files - i + effectiveWorkers M (length files) (cpus h) - 1)
              div effectiveWorkers M (length files) (cpus h)]"
proof (induction "length files - i" arbitrary: i st rule: less_induct)
  case less
  let ?E = "effectiveWorkers M (length files) (cpus h)"
  let ?n = "length files"
  have E: "0 < ?E" by (rule effectiveWorkers_pos)
  show ?case
  proof (cases "i < ?n")
    case True
    have "?n - (i + ?E) < ?n - i" using True E by simp
    note IH = less.hyps [OF this]
    let ?K = "(?n - (i + ?E) + ?E - 1) div ?E"
    have count: "(?n - i + ?E - 1) div ?E = Suc ?K"
      using True E by (rule batches_count_step)
    have unroll: "map (\<lambda>j. batch_at files (i + j * ?E) ?E) [0..<Suc ?K] =
        batch_at files i ?E # map (\<lambda>j. batch_at files (i + ?E + j * ?E) ?E) [0..<?K]"
      by (simp only: upt_conv_Cons [of 0 "Suc ?K"] zero_less_Suc map_Suc_upt [symmetric] list.map map_map)
         (simp add: comp_def add.assoc)
    have "launched (batch_loop h M files i st) =
        launched (batch_loop h M files (i + ?E)
          \<lparr>run_results = foldl record_result (run_results st)
             (map (\<lambda>(file, workerId). createWorker h file workerId) (batch_at files i ?E)),
           launched = launched st @ [batch_at files i ?E]\<rparr>)"
      by (simp only: batch_loop_step [OF True])
    also have "\<dots> = (launched st @ [batch_at files i ?E]) @
        map (\<lambda>j. batch_at files (i + ?E + j * ?E) ?E) [0..<?K]"
      by (simp only: IH run.simps)
    also have "\<dots> = launched st @ map (\<lambda>j. batch_at files (i + j * ?E) ?E) [0..<Suc ?K]"
      by (simp only: unroll append_assoc append_Cons append_Nil)
    finally show ?thesis by (simp only: count)
  next
    case False
    then have "(?n - i + ?E - 1) div ?E = 0" using E by simp
    with False show ?thesis by (simp add: batch_loop_done)
  qed
qed

lemma fst_batch_at: "map fst (batch_at files i e) = take e (drop i files)"
proof (cases "i \<le> length files")
  case True
  then have "map fst (batch_at files i e) = map ((!) files) [i..<min (i + e) (length files)]"
    by (simp add: batch_at_def comp_def del: upt_Suc)
  also have "\<dots> = drop i (take (min (i + e) (length files)) files)"
  proof -
    have "map ((!) files) [i..<min (i + e) (length files)] =
        map ((!) (take (min (i + e) (length files)) files))
          (drop i [0..<length (take (min (i + e) (length files)) files)])"
      by (simp del: upt_Suc)
    also have "\<dots> = drop i (take (min (i + e) (length files)) files)"
      by (simp only: drop_map [symmetric] map_nth)
    finally show ?thesis .
  qed
  also have "\<dots> = take e (drop i files)"
    by (simp add: drop_take min_def)
  finally show ?thesis .
next
  case False
  then show ?thesis by (simp add: batch_at_def)
qed

lemma launched_processFilesInParallel:
  "launched (processFilesInParallel h (Some files) (Some M)) =
     map (\<lambda>j. batch_at files (j * effectiveWorkers M (length files) (cpus h))
                 (effectiveWorkers M (length files) (cpus h)))
       [0..<(length files + effectiveWorkers M (length files) (cpus h) - 1)
              div effectiveWorkers M (length files) (cpus h)]"
proof (cases "files = []")
  case True
  have "(effectiveWorkers M 0 (cpus h) - 1) div effectiveWorkers M 0 (cpus h) = 0"
    using effectiveWorkers_pos [of M 0 "cpus h"] by simp
  with True show ?thesis by (simp add: processFilesInParallel_def)
next
  case False
  then show ?thesis
    using launched_batch_loop [of h M files 0]
    by (simp add: processFilesInParallel_def Let_def)
qed

lemma concat_chunks:
  assumes "0 < (e :: nat)"
  shows "concat (map (\<lambda>j. take e (drop (i + j * e) xs)) [0..<(length xs - i + e - 1) div e]) = drop i xs"
proof (induction "length xs - i" arbitrary: i rule: less_induct)
  case less
  show ?case
  proof (cases "i < length xs")
    case True
    let ?K = "(length xs - (i + e) + e - 1) div e"
    have count: "(length xs - i + e - 1) div e = Suc ?K"
      using True assms by (rule batches_count_step)
    have "length xs - (i + e) < length xs - i" using True assms by simp
    note IH = less.hyps [OF this]
    have "map (\<lambda>j. take e (drop (i + j * e) xs)) [0..<Suc ?K] =
        take e (drop i xs) # map (\<lambda>j. take e (drop (i + e + j * e) xs)) [0..<?K]"
      by (simp only: upt_conv_Cons [of 0 "Suc ?K"] zero_less_Suc map_Suc_upt [symmetric] list.map map_map)
         (simp add: comp_def add.assoc)
    then have "concat (map (\<lambda>j. take e (drop (i + j * e) xs)) [0..<Suc ?K]) =
        take e (drop i xs) @ drop (i + e) xs"
      by (simp only: concat.simps IH)
    also have "\<dots> = drop i xs"
      using append_take_drop_id [of e "drop i xs"] by (simp add: add.commute)
    finally show ?thesis by (simp only: count)
  next
    case False
    then have "(length xs - i + e - 1) div e = 0" using assms by simp
    with False show ?thesis by simp
  qed
qed

text \<open>
  C3: for every list of files, configured maximum \<open>M\<close> and number of CPUs, the step of
  the scheduler is \<open>E = max(1, min(M, fileCount, CPUs))\<close>, and the batches for which it
  creates workers are the consecutive pieces of \<open>E\<close> files of the list, in order:
  together they are the list, none is empty or longer than \<open>E\<close>, and all but the last
  have \<open>E\<close> files. 10 files with \<open>M = 4\<close> on 8 CPUs give \<open>E = 4\<close> and batches of
  4, 4 and 2.
\<close>

theorem batches_of_effective_concurrency:
  fixes h :: host and files :: "jsstring list" and M :: int
  defines "E \<equiv> effectiveWorkers M (length files) (cpus h)"
  defines "bs \<equiv> map (map fst) (launched (processFilesInParallel h (Some files) (Some M)))"
  shows "int E = max 1 (min M (min (int (length files)) (int (cpus h))))
       \<and> bs = map (\<lambda>j. take E (drop (j * E) files)) [0..<(length files + E - 1) div E]
       \<and> concat bs = files
       \<and> (\<forall>b\<in>set bs. 0 < length b \<and> length b \<le> E)
       \<and> (\<forall>j. Suc j < length bs \<longrightarrow> length (bs ! j) = E)
       \<and> (length files = 10 \<and> M = 4 \<and> cpus h = 8 \<longrightarrow> E = 4 \<and> map length bs = [4, 4, 2])"
proof -
  have E: "0 < E" unfolding E_def by (rule effectiveWorkers_pos)
  let ?n = "length files"
  let ?K = "(?n + E - 1) div E"
  have formula: "bs = map (\<lambda>j. take E (drop (j * E) files)) [0..<?K]"
    unfolding bs_def E_def by (simp add: launched_processFilesInParallel fst_batch_at comp_def)
  have "concat bs = drop 0 files"
    using concat_chunks [OF E, of 0 files] by (simp add: formula)
  then have whole: "concat bs = files" by simp
  have K: "j < ?K \<longleftrightarrow> j * E < ?n" for j
  proof -
    have "Suc j \<le> ?K \<longleftrightarrow> Suc j * E \<le> ?n + E - 1"
      using E by (simp only: less_eq_div_iff_mult_less_eq)
    also have "\<dots> \<longleftrightarrow> j * E + E \<le> ?n + E - 1" by (simp only: mult_Suc add.commute [of E])
    also have "\<dots> \<longleftrightarrow> j * E < ?n" using E by arith
    finally show ?thesis by (simp only: Suc_le_eq)
  qed
  have len: "length bs = ?K" by (simp add: formula)
  have nth: "bs ! j = take E (drop (j * E) files)" if "j < ?K" for j
    using that by (simp add: formula del: upt_Suc)
  have sizes: "\<forall>b\<in>set bs. 0 < length b \<and> length b \<le> E"
  proof
    fix b assume "b \<in> set bs"
    then obtain j where j: "j < ?K" and b: "b = take E (drop (j * E) files)"
      by (auto simp: formula)
    from j have "j * E < ?n" by (simp only: K)
    with E show "0 < length b \<and> length b \<le> E" by (simp add: b)
  qed
  have full: "\<forall>j. Suc j < length bs \<longrightarrow> length (bs ! j) = E"
  proof (intro allI impI)
    fix j assume "Suc j < length bs"
    then have S: "Suc j < ?K" and j: "j < ?K" by (simp_all add: len)
    from S have "Suc j * E < ?n" by (simp only: K)
    then have "j * E + E \<le> ?n" by simp
    then show "length (bs ! j) = E" by (simp add: nth [OF j])
  qed
  have example: "length files = 10 \<and> M = 4 \<and> cpus h = 8 \<longrightarrow> E = 4 \<and> map length bs = [4, 4, 2]"
  proof
    assume a: "length files = 10 \<and> M = 4 \<and> cpus h = 8"
    then have E4: "E = 4" by (simp add: E_def effectiveWorkers_def)
    have "[0..<(10 + 4 - 1) div 4] = [0, 1, 2 :: nat]" by (simp add: upt_rec)
    with a E4 have "map length bs = [4, 4, 2]" by (simp add: formula)
    with E4 show "E = 4 \<and> map length bs = [4, 4, 2]" by simp
  qed
  have "int E = max 1 (min M (min (int (length files)) (int (cpus h))))"
    by (simp add: E_def effectiveWorkers_def)
  with formula whole sizes full example show ?thesis by blast
qed

theorem batches_of_effective_concurrency_witness:
  "length (map ascii [''a'', ''b'', ''c'', ''d'', ''e'', ''f'', ''g'', ''h'', ''i'', ''j'']) = 10
   \<and> cpus \<lparr>toLowerCase = toLowerCase_latin1, fs = Map.empty, cpus = 8, worker_fault = Map.empty\<rparr> = 8
   \<and> effectiveWorkers 4 10 8 = 4
   \<and> map length (map (map fst) (launched (processFilesInParallel
        \<lparr>toLowerCase = toLowerCase_latin1, fs = Map.empty, cpus = 8, worker_fault = Map.empty\<rparr>
        (Some (map ascii [''a'', ''b'', ''c'', ''d'', ''e'', ''f'', ''g'', ''h'', ''i'', ''j'']))
        (Some 4)))) = [4, 4, 2]"
proof -
  let ?h = "\<lparr>toLowerCase = toLowerCase_latin1, fs = Map.empty, cpus = 8, worker_fault = Map.empty\<rparr>"
  let ?files = "map ascii [''a'', ''b'', ''c'', ''d'', ''e'', ''f'', ''g'', ''h'', ''i'', ''j'']"
  have n: "length ?files = 10" by simp
  have c: "cpus ?h = 8" by simp
  from batches_of_effective_concurrency [of 4 ?files ?h] n c
  have r: "effectiveWorkers 4 (length ?files) (cpus ?h) = 4
      \<and> map length (map (map fst) (launched (processFilesInParallel ?h (Some ?files) (Some 4)))) =
          [4, 4, 2]"
    by blast
  then have "effectiveWorkers 4 10 8 = 4" by (simp only: n c)
  with n c r show ?thesis by blast
qed

lemma createWorker_filePath: "msg_filePath (createWorker h f k) = f"
  by (simp add: createWorker_def processFile_def split: option.splits sum.splits)

lemma createWorker_outcome: "msg_outcome (createWorker h f k) = file_outcome h f"
  by (simp add: file_outcome_def createWorker_def processFile_def split: option.splits sum.splits)

lemma mergeMaps_pair: "Map_wf c \<Longrightarrow> mergeMaps [c, m] = merge_into c m"
  using merge_into_fresh [of "[]" c] by (simp add: mergeMaps_def)

lemma record_result_file:
  assumes "msg_filePath m = f" and "msg_outcome m = file_outcome h f"
  shows "failed (record_result rs m) = failed rs @ List.map_filter (failed_entry_of h) [f]"
    and "successful (record_result rs m) = successful rs @ List.map_filter (success_entry_of h) [f]"
    and "results_totalWords (record_result rs m) =
           results_totalWords rs + sum_list (map ok_totalWords (List.map_filter (success_entry_of h) [f]))"
    and "totalLinesProcessed (record_result rs m) =
           totalLinesProcessed rs + sum_list (map ok_linesProcessed (List.map_filter (success_entry_of h) [f]))"
    and "Map_wf (combinedWordMap rs) \<Longrightarrow> combinedWordMap (record_result rs m) =
           foldl merge_into (combinedWordMap rs) (List.map_filter (success_map_of h) [f])"
    and "totalUniqueWords (record_result rs m) = totalUniqueWords rs"
  using assms
  by (auto simp: record_result_def failed_entry_of_def success_entry_of_def success_map_of_def
        List.map_filter_simps mergeMaps_pair split: outcome.splits)

lemma map_filter_Cons_append: "List.map_filter g (x # xs) = List.map_filter g [x] @ List.map_filter g xs"
  by (simp add: List.map_filter_simps split: option.splits)

lemma Map_wf_record_result:
  "Map_wf (combinedWordMap rs) \<Longrightarrow> Map_wf (combinedWordMap (record_result rs m))"
  by (auto simp: record_result_def Map_wf_mergeMaps split: outcome.splits)

lemma fold_record_result:
  assumes "map msg_filePath msgs = fl" and "map msg_outcome msgs = map (file_outcome h) fl"
    and "Map_wf (combinedWordMap rs)"
  shows "failed (foldl record_result rs msgs) = failed rs @ List.map_filter (failed_entry_of h) fl
       \<and> successful (foldl record_result rs msgs) =
           successful rs @ List.map_filter (success_entry_of h) fl
       \<and> results_totalWords (foldl record_result rs msgs) =
           results_totalWords rs + sum_list (map ok_totalWords (List.map_filter (success_entry_of h) fl))
       \<and> totalLinesProcessed (foldl record_result rs msgs) =
           totalLinesProcessed rs +
           sum_list (map ok_linesProcessed (List.map_filter (success_entry_of h) fl))
       \<and> combinedWordMap (foldl record_result rs msgs) =
           foldl merge_into (combinedWordMap rs) (List.map_filter (success_map_of h) fl)
       \<and> totalUniqueWords (foldl record_result rs msgs) = totalUniqueWords rs"
  using assms
proof (induction msgs arbitrary: fl rs)
  case Nil
  then show ?case by (simp add: List.map_filter_simps)
next
  case (Cons m msgs)
  then obtain f fl' where fl: "fl = f # fl'" and f: "msg_filePath m = f"
    and o: "msg_outcome m = file_outcome h f"
    and rest: "map msg_filePath msgs = fl'" "map msg_outcome msgs = map (file_outcome h) fl'"
    by (cases fl) auto
  note step = record_result_file [OF f o, of rs]
  have wf: "Map_wf (combinedWordMap (record_result rs m))"
    using Cons.prems(3) by (rule Map_wf_record_result)
  note IH = Cons.IH [OF rest wf]
  show ?case
    unfolding fl foldl_Cons
    by (simp only: map_filter_Cons_append [of _ f fl'] IH step(1-4,6) step(5) [OF Cons.prems(3)]
          append_assoc map_append sum_list_append foldl_append add.assoc simp_thms)
qed


lemma worker_messages:
  "map msg_filePath (map (\<lambda>k. createWorker h (files ! k) (k + 1)) [0..<length files]) = files"
  "map msg_outcome (map (\<lambda>k. createWorker h (files ! k) (k + 1)) [0..<length files]) =
     map (file_outcome h) files"
proof -
  have "map (\<lambda>k. files ! k) [0..<length files] = files" by (rule map_nth)
  then show "map msg_filePath (map (\<lambda>k. createWorker h (files ! k) (k + 1)) [0..<length files]) = files"
    by (simp add: comp_def createWorker_filePath del: upt_Suc)
  have "map (\<lambda>k. file_outcome h (files ! k)) [0..<length files] =
      map (file_outcome h) (map (\<lambda>k. files ! k) [0..<length files])"
    by (simp add: comp_def del: upt_Suc)
  then show "map msg_outcome (map (\<lambda>k. createWorker h (files ! k) (k + 1)) [0..<length files]) =
      map (file_outcome h) files"
    by (simp add: comp_def createWorker_outcome map_nth del: upt_Suc)
qed

lemma run_results_processFilesInParallel:
  "run_results (processFilesInParallel h (Some files) opt) =
     (foldl record_result empty_results
        (map (\<lambda>k. createWorker h (files ! k) (k + 1)) [0..<length files]))
     \<lparr>totalUniqueWords := Map_size (combinedWordMap (foldl record_result empty_results
        (map (\<lambda>k. createWorker h (files ! k) (k + 1)) [0..<length files])))\<rparr>"
proof (cases "files = []")
  case True
  then show ?thesis by (simp add: processFilesInParallel_def empty_results_def Map_size_def)
next
  case False
  then show ?thesis
    by (simp add: processFilesInParallel_def Let_def run_results_batch_loop del: upt_Suc)
qed

lemma file_outcome_fault:
  "worker_fault h f = Some t \<Longrightarrow>
     file_outcome h f = Failed \<lparr>message = Uncaught t, code = ''WORKER_ERROR''\<rparr>"
  by (simp add: file_outcome_def createWorker_def)

lemma file_outcome_absent:
  "worker_fault h f = None \<Longrightarrow> fs h f = None \<Longrightarrow>
     file_outcome h f = Failed \<lparr>message = ENOENT f, code = ''UNKNOWN''\<rparr>"
  by (simp add: file_outcome_def createWorker_def processFile_def countWords_def
        code_or_unknown_def)

lemma file_outcome_directory:
  "worker_fault h f = None \<Longrightarrow> fs h f = Some Directory \<Longrightarrow>
     file_outcome h f = Failed \<lparr>message = EISDIR f, code = ''UNKNOWN''\<rparr>"
  by (simp add: file_outcome_def createWorker_def processFile_def countWords_def
        code_or_unknown_def)

lemma file_outcome_unreadable:
  "worker_fault h f = None \<Longrightarrow> fs h f = Some (Unreadable ls t c) \<Longrightarrow>
     file_outcome h f =
       Failed \<lparr>message = SystemMessage t, code = (if c = [] then ''UNKNOWN'' else c)\<rparr>"
  by (simp add: file_outcome_def createWorker_def processFile_def countWords_def
        code_or_unknown_def)

lemma file_outcome_regular:
  "worker_fault h f = None \<Longrightarrow> fs h f = Some (File ls) \<Longrightarrow>
     file_outcome h f = Succeeded
       \<lparr>data_wordMap = mapToObject (wordMap (scan_lines (toLowerCase h) ls)),
        data_totalWords = totalWords (scan_lines (toLowerCase h) ls),
        data_uniqueWords = Map_size (wordMap (scan_lines (toLowerCase h) ls)),
        data_linesProcessed = length ls\<rparr>"
  by (simp add: file_outcome_def createWorker_def processFile_def countWords_def Let_def
        linesProcessed_scan_lines)

lemma map_filter_append:
  "List.map_filter g (xs @ ys) = List.map_filter g xs @ List.map_filter g ys"
  by (simp add: List.map_filter_def)

lemma map_filter_none: "\<forall>x\<in>set xs. g x = None \<Longrightarrow> List.map_filter g xs = []"
  by (induction xs) (simp_all add: List.map_filter_simps)

lemma length_map_filters:
  "length (List.map_filter (success_entry_of h) fl) + length (List.map_filter (failed_entry_of h) fl) =
     length fl"
  by (induction fl)
     (auto simp: List.map_filter_simps success_entry_of_def failed_entry_of_def split: outcome.splits)

lemma successes_all_regular:
  assumes "\<forall>f. worker_fault h f = None" and "\<forall>f\<in>set zs. \<exists>ls. fs h f = Some (File ls)"
  shows "List.map_filter (failed_entry_of h) zs = []"
    and "map ok_filePath (List.map_filter (success_entry_of h) zs) = zs"
  using assms
  by (induction zs)
     (auto simp: List.map_filter_simps failed_entry_of_def success_entry_of_def
        file_outcome_regular)

lemma success_map_scanned:
  "success_map_of h f = map_option (\<lambda>s. objectToMap (mapToObject (wordMap s))) (scanned h f)"
  by (auto simp: success_map_of_def scanned_def file_outcome_def createWorker_def processFile_def
        countWords_def Let_def split: option.splits fs_node.splits)

lemma success_entry_scanned:
  "success_entry_of h f =
     map_option (\<lambda>s. \<lparr>ok_filePath = f, ok_uniqueWords = Map_size (wordMap s),
       ok_totalWords = totalWords s, ok_linesProcessed = linesProcessed s\<rparr>) (scanned h f)"
  by (auto simp: success_entry_of_def scanned_def file_outcome_def createWorker_def processFile_def
        countWords_def Let_def split: option.splits fs_node.splits)

lemma map_filter_map_option:
  "List.map_filter (\<lambda>x. map_option g (p x)) xs = map g (List.map_filter p xs)"
  by (induction xs) (simp_all add: List.map_filter_simps split: option.splits)

lemma scanned_wf: "scanned h f = Some s \<Longrightarrow> Map_wf (wordMap s) \<and> totalWords s = sum_counts (wordMap s)"
  using scan_lines_invariant
  by (auto simp: scanned_def split: option.splits fs_node.splits)

lemma scanned_all_wf: "\<forall>m\<in>set (map wordMap (List.map_filter (scanned h) fl)). Map_wf m"
  by (induction fl) (auto simp: List.map_filter_simps scanned_wf split: option.splits)

lemma success_totals_scanned:
  "map ok_totalWords (List.map_filter (success_entry_of h) fl) =
     map totalWords (List.map_filter (scanned h) fl)"
  "map ok_linesProcessed (List.map_filter (success_entry_of h) fl) =
     map linesProcessed (List.map_filter (scanned h) fl)"
  by (induction fl)
     (simp_all add: List.map_filter_simps success_entry_scanned split: option.splits)

lemma Map_size_card: "Map_wf m \<Longrightarrow> Map_size m = card (Map_keys m)"
proof -
  assume "Map_wf m"
  then have "card (set (map fst m)) = length (map fst m)"
    unfolding Map_wf_def by (rule distinct_card)
  then show ?thesis by (simp add: Map_size_def Map_keys_def)
qed

lemma run_results_lists:
  fixes h :: host and files :: "jsstring list" and opt :: "int option"
  defines "r \<equiv> run_results (processFilesInParallel h (Some files) opt)"
  shows "failed r = List.map_filter (failed_entry_of h) files"
    and "successful r = List.map_filter (success_entry_of h) files"
    and "results_totalWords r = sum_list (map ok_totalWords (successful r))"
    and "totalLinesProcessed r = sum_list (map ok_linesProcessed (successful r))"
    and "combinedWordMap r = mergeMaps (List.map_filter (success_map_of h) files)"
    and "totalUniqueWords r = Map_size (combinedWordMap r)"
proof -
  let ?msgs = "map (\<lambda>k. createWorker h (files ! k) (k + 1)) [0..<length files]"
  let ?rs = "foldl record_result empty_results ?msgs"
  have r: "r = ?rs\<lparr>totalUniqueWords := Map_size (combinedWordMap ?rs)\<rparr>"
    unfolding r_def by (rule run_results_processFilesInParallel)
  have wf: "Map_wf (combinedWordMap empty_results)" by (simp add: empty_results_def Map_wf_def)
  note fold = fold_record_result [OF worker_messages wf, of h files]
  show "failed r = List.map_filter (failed_entry_of h) files"
    using fold by (simp add: r empty_results_def)
  show s: "successful r = List.map_filter (success_entry_of h) files"
    using fold by (simp add: r empty_results_def)
  show "results_totalWords r = sum_list (map ok_totalWords (successful r))"
    using fold by (simp add: r empty_results_def)
  show "totalLinesProcessed r = sum_list (map ok_linesProcessed (successful r))"
    using fold by (simp add: r empty_results_def)
  show "combinedWordMap r = mergeMaps (List.map_filter (success_map_of h) files)"
    using fold by (simp add: r empty_results_def mergeMaps_def)
  show "totalUniqueWords r = Map_size (combinedWordMap r)"
    by (simp add: r)
qed

lemma aggregate_of_scans:
  fixes h :: host and files :: "jsstring list" and opt :: "int option"
  defines "r \<equiv> run_results (processFilesInParallel h (Some files) opt)"
  defines "scans \<equiv> List.map_filter (scanned h) files"
  shows "results_totalWords r = sum_list (map totalWords scans)"
    and "totalLinesProcessed r = sum_list (map linesProcessed scans)"
    and "Map_get (combinedWordMap r) w =
          (if w = ascii ''__proto__'' then None else Map_get (mergeMaps (map wordMap scans)) w)"
    and "totalUniqueWords r =
          card (Map_keys (mergeMaps (map wordMap scans)) - {ascii ''__proto__''})"
proof -
  note lists = run_results_lists [of h files opt, folded r_def]
  show "results_totalWords r = sum_list (map totalWords scans)"
    by (simp only: lists(3) lists(2) success_totals_scanned scans_def)
  show "totalLinesProcessed r = sum_list (map linesProcessed scans)"
    by (simp only: lists(4) lists(2) success_totals_scanned scans_def)
  have maps: "List.map_filter (success_map_of h) files =
      map (\<lambda>m. objectToMap (mapToObject m)) (map wordMap scans)"
    unfolding scans_def
    by (induction files)
       (simp_all add: List.map_filter_simps success_map_scanned split: option.splits)
  have wfs: "\<forall>m\<in>set (map wordMap scans). Map_wf m"
    unfolding scans_def by (rule scanned_all_wf)
  show get: "Map_get (combinedWordMap r) w =
      (if w = ascii ''__proto__'' then None else Map_get (mergeMaps (map wordMap scans)) w)" for w
    by (simp only: lists(5) maps Map_get_mergeMaps_roundtrip [OF wfs])
  have "Map_keys (combinedWordMap r) =
      Map_keys (mergeMaps (map wordMap scans)) - {ascii ''__proto__''}"
    by (auto simp: Map_keys_iff get split: if_splits)
  moreover have "Map_wf (combinedWordMap r)"
    by (simp only: lists(5) Map_wf_mergeMaps)
  ultimately show "totalUniqueWords r =
      card (Map_keys (mergeMaps (map wordMap scans)) - {ascii ''__proto__''})"
    by (simp add: lists(6) Map_size_card)
qed

text \<open>
  C4: every per-file error is isolated. Whatever the files, the failed list holds, in
  the order of the files, one entry with the path and the error for each file whose
  worker ended in an error: \<open>ENOENT\<close>, that is NotFound, \<open>EISDIR\<close>, the system
  error of a stream that fails, with its code, or the death of the worker thread. The
  successful list holds one entry for each other file, so that every file is in one of
  the two. The totals come from the scans of the successful files and from nothing else:
  \<open>totalWords\<close> and \<open>totalLinesProcessed\<close> are the sums of their counters, the
  combined map gives every token but \<open>__proto__\<close> the sum of its counts in their maps,
  and \<open>totalUniqueWords\<close> is the number of those tokens. For 3 files of which one does
  not exist and the others are read, the failed list is the one entry of the missing
  path with \<open>ENOENT\<close>, the successful list has the 2 other files, and theirs are the 2
  scans that enter the totals.
\<close>

theorem per_file_errors_isolated:
  fixes h :: host and files :: "jsstring list" and opt :: "int option"
  defines "r \<equiv> run_results (processFilesInParallel h (Some files) opt)"
  defines "scans \<equiv> List.map_filter (scanned h) files"
  shows "failed r = List.map_filter (failed_entry_of h) files
       \<and> successful r = List.map_filter (success_entry_of h) files
       \<and> length (successful r) + length (failed r) = length files
       \<and> results_totalWords r = sum_list (map ok_totalWords (successful r))
       \<and> totalLinesProcessed r = sum_list (map ok_linesProcessed (successful r))
       \<and> combinedWordMap r = mergeMaps (List.map_filter (success_map_of h) files)
       \<and> totalUniqueWords r = Map_size (combinedWordMap r)
       \<and> results_totalWords r = sum_list (map totalWords scans)
       \<and> totalLinesProcessed r = sum_list (map linesProcessed scans)
       \<and> (\<forall>w. Map_get (combinedWordMap r) w =
             (if w = ascii ''__proto__'' then None
              else Map_get (mergeMaps (map wordMap scans)) w))
       \<and> totalUniqueWords r =
           card (Map_keys (mergeMaps (map wordMap scans)) - {ascii ''__proto__''})
       \<and> (\<forall>f t. worker_fault h f = Some t \<longrightarrow>
             scanned h f = None
             \<and> failed_entry_of h f = Some \<lparr>failed_filePath = f,
               failed_error = \<lparr>message = Uncaught t, code = ''WORKER_ERROR''\<rparr>\<rparr>)
       \<and> (\<forall>f. worker_fault h f = None \<and> fs h f = None \<longrightarrow>
             scanned h f = None
             \<and> failed_entry_of h f = Some \<lparr>failed_filePath = f,
               failed_error = \<lparr>message = ENOENT f, code = ''UNKNOWN''\<rparr>\<rparr>)
       \<and> (\<forall>f. worker_fault h f = None \<and> fs h f = Some Directory \<longrightarrow>
             scanned h f = None
             \<and> failed_entry_of h f = Some \<lparr>failed_filePath = f,
               failed_error = \<lparr>message = EISDIR f, code = ''UNKNOWN''\<rparr>\<rparr>)
       \<and> (\<forall>f ls t c. worker_fault h f = None \<and> fs h f = Some (Unreadable ls t c) \<longrightarrow>
             scanned h f = None
             \<and> failed_entry_of h f = Some \<lparr>failed_filePath = f,
               failed_error = \<lparr>message = SystemMessage t,
                 code = (if c = [] then ''UNKNOWN'' else c)\<rparr>\<rparr>)
       \<and> (\<forall>f ls. worker_fault h f = None \<and> fs h f = Some (File ls) \<longrightarrow>
             scanned h f = Some (scan_lines (toLowerCase h) ls)
             \<and> failed_entry_of h f = None
             \<and> success_entry_of h f = Some \<lparr>ok_filePath = f,
                 ok_uniqueWords = Map_size (wordMap (scan_lines (toLowerCase h) ls)),
                 ok_totalWords = totalWords (scan_lines (toLowerCase h) ls),
                 ok_linesProcessed = length ls\<rparr>)
       \<and> (\<forall>xs b ys. files = xs @ b # ys \<and> length xs + length ys = 2
             \<and> (\<forall>f. worker_fault h f = None) \<and> fs h b = None
             \<and> (\<forall>f\<in>set (xs @ ys). \<exists>ls. fs h f = Some (File ls)) \<longrightarrow>
             failed r = [\<lparr>failed_filePath = b,
               failed_error = \<lparr>message = ENOENT b, code = ''UNKNOWN''\<rparr>\<rparr>]
             \<and> map ok_filePath (successful r) = xs @ ys
             \<and> length (successful r) = 2
             \<and> scans = List.map_filter (scanned h) (xs @ ys)
             \<and> length scans = 2)"
proof -
  note lists = run_results_lists [of h files opt, folded r_def]
  note agg = aggregate_of_scans [of h files opt, folded r_def scans_def]
  note failed = lists(1) and successful = lists(2)
  have lengths: "length (successful r) + length (failed r) = length files"
    by (simp only: failed successful length_map_filters)
  have get: "\<forall>w. Map_get (combinedWordMap r) w =
      (if w = ascii ''__proto__'' then None else Map_get (mergeMaps (map wordMap scans)) w)"
    using agg(3) by blast
  have fault: "\<forall>f t. worker_fault h f = Some t \<longrightarrow>
      scanned h f = None
      \<and> failed_entry_of h f = Some \<lparr>failed_filePath = f,
        failed_error = \<lparr>message = Uncaught t, code = ''WORKER_ERROR''\<rparr>\<rparr>"
    by (simp add: failed_entry_of_def file_outcome_fault scanned_def)
  have absent: "\<forall>f. worker_fault h f = None \<and> fs h f = None \<longrightarrow>
      scanned h f = None
      \<and> failed_entry_of h f = Some \<lparr>failed_filePath = f,
        failed_error = \<lparr>message = ENOENT f, code = ''UNKNOWN''\<rparr>\<rparr>"
    by (simp add: failed_entry_of_def file_outcome_absent scanned_def)
  have directory: "\<forall>f. worker_fault h f = None \<and> fs h f = Some Directory \<longrightarrow>
      scanned h f = None
      \<and> failed_entry_of h f = Some \<lparr>failed_filePath = f,
        failed_error = \<lparr>message = EISDIR f, code = ''UNKNOWN''\<rparr>\<rparr>"
    by (simp add: failed_entry_of_def file_outcome_directory scanned_def)
  have unreadable: "\<forall>f ls t c. worker_fault h f = None \<and> fs h f = Some (Unreadable ls t c) \<longrightarrow>
      scanned h f = None
      \<and> failed_entry_of h f = Some \<lparr>failed_filePath = f,
        failed_error = \<lparr>message = SystemMessage t,
          code = (if c = [] then ''UNKNOWN'' else c)\<rparr>\<rparr>"
    by (simp add: failed_entry_of_def file_outcome_unreadable scanned_def)
  have regular: "\<forall>f ls. worker_fault h f = None \<and> fs h f = Some (File ls) \<longrightarrow>
      scanned h f = Some (scan_lines (toLowerCase h) ls)
      \<and> failed_entry_of h f = None
      \<and> success_entry_of h f = Some \<lparr>ok_filePath = f,
          ok_uniqueWords = Map_size (wordMap (scan_lines (toLowerCase h) ls)),
          ok_totalWords = totalWords (scan_lines (toLowerCase h) ls),
          ok_linesProcessed = length ls\<rparr>"
    by (simp add: failed_entry_of_def success_entry_of_def file_outcome_regular scanned_def)
  have example: "\<forall>xs b ys. files = xs @ b # ys \<and> length xs + length ys = 2
      \<and> (\<forall>f. worker_fault h f = None) \<and> fs h b = None
      \<and> (\<forall>f\<in>set (xs @ ys). \<exists>ls. fs h f = Some (File ls)) \<longrightarrow>
      failed r = [\<lparr>failed_filePath = b,
        failed_error = \<lparr>message = ENOENT b, code = ''UNKNOWN''\<rparr>\<rparr>]
      \<and> map ok_filePath (successful r) = xs @ ys
      \<and> length (successful r) = 2
      \<and> scans = List.map_filter (scanned h) (xs @ ys)
      \<and> length scans = 2"
  proof (intro allI impI, elim conjE)
    fix xs b ys
    assume files: "files = xs @ b # ys" and two: "length xs + length ys = 2"
      and nofault: "\<forall>f. worker_fault h f = None" and b: "fs h b = None"
      and others: "\<forall>f\<in>set (xs @ ys). \<exists>ls. fs h f = Some (File ls)"
    from others have xs: "\<forall>f\<in>set xs. \<exists>ls. fs h f = Some (File ls)"
      and ys: "\<forall>f\<in>set ys. \<exists>ls. fs h f = Some (File ls)" by simp_all
    from nofault b have fb: "failed_entry_of h b = Some \<lparr>failed_filePath = b,
        failed_error = \<lparr>message = ENOENT b, code = ''UNKNOWN''\<rparr>\<rparr>"
      and nb: "scanned h b = None"
      using absent by simp_all
    from fb have sb: "success_entry_of h b = None"
      by (simp add: failed_entry_of_def success_entry_of_def split: outcome.splits)
    have f: "failed r = [\<lparr>failed_filePath = b,
        failed_error = \<lparr>message = ENOENT b, code = ''UNKNOWN''\<rparr>\<rparr>]"
      by (simp add: failed files map_filter_append map_filter_Cons_append [of _ b ys]
            successes_all_regular(1) [OF nofault xs] successes_all_regular(1) [OF nofault ys]
            List.map_filter_simps fb)
    have s: "map ok_filePath (successful r) = xs @ ys"
      by (simp add: successful files map_filter_append map_filter_Cons_append [of _ b ys]
            successes_all_regular(2) [OF nofault xs] successes_all_regular(2) [OF nofault ys]
            List.map_filter_simps sb)
    then have "length (map ok_filePath (successful r)) = length (xs @ ys)" by (simp only:)
    with two have two_ok: "length (successful r) = 2" by simp
    have sc: "scans = List.map_filter (scanned h) (xs @ ys)"
      by (simp add: scans_def files map_filter_append map_filter_Cons_append [of _ b ys]
            List.map_filter_simps nb)
    have "map ok_totalWords (successful r) = map totalWords scans"
      by (simp only: successful scans_def success_totals_scanned)
    then have "length (map ok_totalWords (successful r)) = length (map totalWords scans)"
      by (simp only:)
    with two_ok have "length scans = 2" by simp
    with f s two_ok sc show "failed r = [\<lparr>failed_filePath = b,
        failed_error = \<lparr>message = ENOENT b, code = ''UNKNOWN''\<rparr>\<rparr>]
      \<and> map ok_filePath (successful r) = xs @ ys
      \<and> length (successful r) = 2
      \<and> scans = List.map_filter (scanned h) (xs @ ys)
      \<and> length scans = 2" by simp
  qed
  from failed successful lengths lists(3,4,5,6) agg(1,2) get agg(4)
    fault absent directory unreadable regular example
  show ?thesis by (intro conjI)
qed

theorem per_file_errors_isolated_witness:
  "fs example_host (ascii ''b.txt'') = None
   \<and> failed (run_results (processFilesInParallel example_host
        (Some [ascii ''a.txt'', ascii ''b.txt'', ascii ''d.txt'']) None)) =
       [\<lparr>failed_filePath = ascii ''b.txt'',
         failed_error = \<lparr>message = ENOENT (ascii ''b.txt''), code = ''UNKNOWN''\<rparr>\<rparr>]
   \<and> map ok_filePath (successful (run_results (processFilesInParallel example_host
        (Some [ascii ''a.txt'', ascii ''b.txt'', ascii ''d.txt'']) None))) =
       [ascii ''a.txt'', ascii ''d.txt'']
   \<and> length (successful (run_results (processFilesInParallel example_host
        (Some [ascii ''a.txt'', ascii ''b.txt'', ascii ''d.txt'']) None))) = 2
   \<and> results_totalWords (run_results (processFilesInParallel example_host
        (Some [ascii ''a.txt'', ascii ''b.txt'', ascii ''d.txt'']) None)) = 5
   \<and> totalLinesProcessed (run_results (processFilesInParallel example_host
        (Some [ascii ''a.txt'', ascii ''b.txt'', ascii ''d.txt'']) None)) = 2
   \<and> totalUniqueWords (run_results (processFilesInParallel example_host
        (Some [ascii ''a.txt'', ascii ''b.txt'', ascii ''d.txt'']) None)) = 3
   \<and> combinedWordMap (run_results (processFilesInParallel example_host
        (Some [ascii ''a.txt'', ascii ''b.txt'', ascii ''d.txt'']) None)) =
       [(ascii ''hello'', 3), (ascii ''world'', 1), (ascii ''there'', 1)]
   \<and> fs example_host (ascii ''e.txt'') =
       Some (Unreadable [ascii ''lost words''] (ascii ''EIO: i/o error, read'') ''EIO'')
   \<and> failed_entry_of example_host (ascii ''e.txt'') =
       Some \<lparr>failed_filePath = ascii ''e.txt'',
         failed_error = \<lparr>message = SystemMessage (ascii ''EIO: i/o error, read''), code = ''EIO''\<rparr>\<rparr>
   \<and> failed (run_results (processFilesInParallel example_host
        (Some [ascii ''e.txt'', ascii ''d.txt'']) None)) =
       [\<lparr>failed_filePath = ascii ''e.txt'',
         failed_error = \<lparr>message = SystemMessage (ascii ''EIO: i/o error, read''), code = ''EIO''\<rparr>\<rparr>]
   \<and> results_totalWords (run_results (processFilesInParallel example_host
        (Some [ascii ''e.txt'', ascii ''d.txt'']) None)) = 2"
proof -
  let ?files = "[ascii ''a.txt'', ascii ''b.txt'', ascii ''d.txt'']"
  let ?r = "run_results (processFilesInParallel example_host (Some ?files) None)"
  let ?r' = "run_results (processFilesInParallel example_host
      (Some [ascii ''e.txt'', ascii ''d.txt'']) None)"
  have absent: "fs example_host (ascii ''b.txt'') = None"
    by (simp add: example_host_def ascii_def)
  have broken: "fs example_host (ascii ''e.txt'') =
      Some (Unreadable [ascii ''lost words''] (ascii ''EIO: i/o error, read'') ''EIO'')"
    by (simp add: example_host_def ascii_def)
  have nofault: "worker_fault example_host (ascii ''e.txt'') = None"
    by (simp add: example_host_def)
  have hyps: "?files = [ascii ''a.txt''] @ ascii ''b.txt'' # [ascii ''d.txt'']
      \<and> length [ascii ''a.txt''] + length [ascii ''d.txt''] = 2
      \<and> (\<forall>f. worker_fault example_host f = None) \<and> fs example_host (ascii ''b.txt'') = None
      \<and> (\<forall>f\<in>set ([ascii ''a.txt''] @ [ascii ''d.txt'']). \<exists>ls. fs example_host f = Some (File ls))"
    by (simp add: example_host_def ascii_def)
  note isolated = per_file_errors_isolated [of example_host ?files None]
  from isolated have "\<forall>xs b ys. ?files = xs @ b # ys \<and> length xs + length ys = 2
      \<and> (\<forall>f. worker_fault example_host f = None) \<and> fs example_host b = None
      \<and> (\<forall>f\<in>set (xs @ ys). \<exists>ls. fs example_host f = Some (File ls)) \<longrightarrow>
      failed ?r = [\<lparr>failed_filePath = b,
        failed_error = \<lparr>message = ENOENT b, code = ''UNKNOWN''\<rparr>\<rparr>]
      \<and> map ok_filePath (successful ?r) = xs @ ys
      \<and> length (successful ?r) = 2
      \<and> List.map_filter (scanned example_host) ?files =
          List.map_filter (scanned example_host) (xs @ ys)
      \<and> length (List.map_filter (scanned example_host) ?files) = 2"
    by (elim conjE)
  from this [rule_format, OF hyps]
  have lists: "failed ?r = [\<lparr>failed_filePath = ascii ''b.txt'',
        failed_error = \<lparr>message = ENOENT (ascii ''b.txt''), code = ''UNKNOWN''\<rparr>\<rparr>]"
    "map ok_filePath (successful ?r) = [ascii ''a.txt'', ascii ''d.txt'']"
    "length (successful ?r) = 2"
    by simp_all
  from isolated have "\<forall>f ls t c. worker_fault example_host f = None
      \<and> fs example_host f = Some (Unreadable ls t c) \<longrightarrow>
      scanned example_host f = None
      \<and> failed_entry_of example_host f = Some \<lparr>failed_filePath = f,
        failed_error = \<lparr>message = SystemMessage t,
          code = (if c = [] then ''UNKNOWN'' else c)\<rparr>\<rparr>"
    by (elim conjE)
  from this [rule_format, OF conjI [OF nofault broken]]
  have eio: "failed_entry_of example_host (ascii ''e.txt'') =
      Some \<lparr>failed_filePath = ascii ''e.txt'',
        failed_error = \<lparr>message = SystemMessage (ascii ''EIO: i/o error, read''), code = ''EIO''\<rparr>\<rparr>"
    by simp
  have totals: "results_totalWords ?r = 5" "totalLinesProcessed ?r = 2" "totalUniqueWords ?r = 3"
    "combinedWordMap ?r = [(ascii ''hello'', 3), (ascii ''world'', 1), (ascii ''there'', 1)]"
    by code_simp+
  have run: "failed ?r' = [\<lparr>failed_filePath = ascii ''e.txt'',
        failed_error = \<lparr>message = SystemMessage (ascii ''EIO: i/o error, read''), code = ''EIO''\<rparr>\<rparr>]"
    "results_totalWords ?r' = 2"
    by code_simp+
  from absent lists totals broken eio run show ?thesis by (intro conjI)
qed

lemma sum_counts_merge_entry: "sum_counts (merge_entry m e) = sum_counts m + snd e"
  by (cases e) (simp add: merge_entry_def or_zero_count_of sum_counts_Map_set)

lemma sum_counts_merge_into: "sum_counts (merge_into c m) = sum_counts c + sum_counts m"
proof -
  have "sum_counts (foldl merge_entry c m) = sum_counts c + sum_list (map snd m)"
    by (induction m arbitrary: c) (simp_all add: sum_counts_merge_entry)
  then show ?thesis by (simp add: merge_into_def sum_counts_def)
qed

lemma sum_counts_mergeMaps: "sum_counts (mergeMaps ms) = sum_list (map sum_counts ms)"
proof -
  have "sum_counts (foldl merge_into c ms) = sum_counts c + sum_list (map sum_counts ms)" for c
    by (induction ms arbitrary: c) (simp_all add: sum_counts_merge_into)
  then show ?thesis by (simp add: mergeMaps_def sum_counts_def)
qed


lemma file_outcome_SucceededD:
  assumes "file_outcome h f = Succeeded d"
  shows "\<exists>ls. worker_fault h f = None \<and> fs h f = Some (File ls)
       \<and> data_wordMap d = mapToObject (wordMap (scan_lines (toLowerCase h) ls))
       \<and> data_totalWords d = totalWords (scan_lines (toLowerCase h) ls)"
  using assms
  by (auto simp: file_outcome_def createWorker_def processFile_def countWords_def Let_def
        split: option.splits fs_node.splits)

lemma success_sums_without_proto:
  assumes "\<forall>f\<in>set fl. \<forall>ls. worker_fault h f = None \<and> fs h f = Some (File ls) \<longrightarrow>
      ascii ''__proto__'' \<notin> set (concat (map (normalizeLine (toLowerCase h)) ls))"
  shows "sum_list (map ok_totalWords (List.map_filter (success_entry_of h) fl)) =
       sum_list (map sum_counts (List.map_filter (success_map_of h) fl))"
  using assms
proof (induction fl)
  case Nil
  show ?case by (simp add: List.map_filter_simps)
next
  case (Cons f fl)
  show ?case
  proof (cases "file_outcome h f")
    case (Failed e)
    with Cons show ?thesis
      by (simp add: List.map_filter_simps success_entry_of_def success_map_of_def)
  next
    case (Succeeded d)
    from file_outcome_SucceededD [OF this] obtain ls
      where ok: "worker_fault h f = None \<and> fs h f = Some (File ls)"
        and m: "data_wordMap d = mapToObject (wordMap (scan_lines (toLowerCase h) ls))"
        and t: "data_totalWords d = totalWords (scan_lines (toLowerCase h) ls)"
      by blast
    from Cons.prems ok have "ascii ''__proto__'' \<notin> Map_keys (wordMap (scan_lines (toLowerCase h) ls))"
      by (simp add: Map_keys_scan_lines)
    then have "sum_counts (objectToMap (data_wordMap d)) = data_totalWords d"
      using scan_lines_invariant [of "toLowerCase h" ls]
      by (simp add: m t roundtrip_without_proto(3))
    with Cons Succeeded show ?thesis
      by (simp add: List.map_filter_simps success_entry_of_def success_map_of_def)
  qed
qed

lemma aggregate_totalWords_without_proto:
  assumes "\<forall>f\<in>set files. \<forall>ls. worker_fault h f = None \<and> fs h f = Some (File ls) \<longrightarrow>
      ascii ''__proto__'' \<notin> set (concat (map (normalizeLine (toLowerCase h)) ls))"
  shows "results_totalWords (run_results (processFilesInParallel h (Some files) opt)) =
       sum_counts (combinedWordMap (run_results (processFilesInParallel h (Some files) opt)))"
proof -
  have wf: "Map_wf (combinedWordMap empty_results)" by (simp add: empty_results_def Map_wf_def)
  note fold = fold_record_result [OF worker_messages wf, of h files]
  from fold have "results_totalWords (run_results (processFilesInParallel h (Some files) opt)) =
      sum_list (map ok_totalWords (List.map_filter (success_entry_of h) files))"
    by (simp add: run_results_processFilesInParallel empty_results_def)
  moreover from fold
  have "combinedWordMap (run_results (processFilesInParallel h (Some files) opt)) =
      mergeMaps (List.map_filter (success_map_of h) files)"
    by (simp add: run_results_processFilesInParallel empty_results_def mergeMaps_def)
  ultimately show ?thesis
    by (simp add: sum_counts_mergeMaps success_sums_without_proto [OF assms])
qed

text \<open>
  C5: \<open>totalWords\<close> is the sum of all counts of the map it comes with. That holds for
  what \<open>countWords\<close> returns (\<open>countWords_totalWords\<close>), and for the aggregate when no
  file has the token \<open>__proto__\<close> (\<open>aggregate_totalWords_without_proto\<close>). It fails
  with that token: the worker sends \<open>totalWords\<close> as counted and the map without the
  token's entry. Here \<open>c.txt\<close> holds the lines \<open>hello __proto__\<close> and \<open>x\<close>: 3 words
  are counted, and the counts of the maps sum to 2.
\<close>

theorem totalWords_proto_mismatch:
  "file_outcome example_host (ascii ''c.txt'') =
     Succeeded \<lparr>data_wordMap = [(ascii ''hello'', 1), (ascii ''x'', 1)], data_totalWords = 3,
       data_uniqueWords = 3, data_linesProcessed = 2\<rparr>
   \<and> results_totalWords (run_results (processFilesInParallel example_host
        (Some [ascii ''c.txt'']) None)) = 3
   \<and> combinedWordMap (run_results (processFilesInParallel example_host
        (Some [ascii ''c.txt'']) None)) = [(ascii ''hello'', 1), (ascii ''x'', 1)]
   \<and> sum_counts (combinedWordMap (run_results (processFilesInParallel example_host
        (Some [ascii ''c.txt'']) None))) = 2"
  by code_simp

text \<open>
  C8: for an absent or empty list of files, \<open>processFilesInParallel\<close> returns empty
  lists of successes and failures, an empty combined map and totals all zero, and has
  created no worker.
\<close>

theorem processFilesInParallel_no_files:
  "processFilesInParallel h None opt =
     \<lparr>run_results = \<lparr>successful = [], failed = [], combinedWordMap = [], results_totalWords = 0,
        totalUniqueWords = 0, totalLinesProcessed = 0\<rparr>, launched = []\<rparr>
   \<and> processFilesInParallel h (Some []) opt =
     \<lparr>run_results = \<lparr>successful = [], failed = [], combinedWordMap = [], results_totalWords = 0,
        totalUniqueWords = 0, totalLinesProcessed = 0\<rparr>, launched = []\<rparr>"
  by (simp add: processFilesInParallel_def empty_results_def)

end
